theory Spec2Isabelle
  imports Main "HOL-Library.Word" "HOL-Library.Sublist"
begin

section \<open>Cursor decorators (pathracer/cursor.hpp)\<close>

text \<open>
  The decorators are class templates over a base \<open>GraphCursor\<close>. The base cursor is the
  type variable \<open>'c\<close>, its context the type variable \<open>'x\<close>, and its two traversal
  members \<open>GraphCursor::next\<close> and \<open>GraphCursor::prev\<close> are passed as the functions
  \<open>nxt\<close> and \<open>prv\<close> of type \<open>'x \<Rightarrow> 'c \<Rightarrow> 'c list\<close>. A \<open>std::vector\<close> is a list, a
  \<open>std::unordered_set<GraphCursor>\<close> is a set, and \<open>count\<close> on it is membership.
\<close>

subsection \<open>ReversalGraphCursor\<close>

text \<open>A reversal cursor is its base object and nothing else.\<close>

datatype 'c ReversalGraphCursor = Reversal (reversal_base: 'c)

text \<open>
  \<open>std::vector<ReversalGraphCursor>(std::cbegin(result), std::cend(result))\<close>: the range
  constructor converts the elements one by one, front to back.
\<close>

fun reversal_range :: "'c list \<Rightarrow> 'c ReversalGraphCursor list" where
  "reversal_range [] = []"
| "reversal_range (c # result) = Reversal c # reversal_range result"

definition reversal_next ::
  "('x \<Rightarrow> 'c \<Rightarrow> 'c list) \<Rightarrow> ('x \<Rightarrow> 'c \<Rightarrow> 'c list) \<Rightarrow> 'c ReversalGraphCursor \<Rightarrow> 'x
    \<Rightarrow> 'c ReversalGraphCursor list" where
  "reversal_next nxt prv r context = reversal_range (prv context (reversal_base r))"

definition reversal_prev ::
  "('x \<Rightarrow> 'c \<Rightarrow> 'c list) \<Rightarrow> ('x \<Rightarrow> 'c \<Rightarrow> 'c list) \<Rightarrow> 'c ReversalGraphCursor \<Rightarrow> 'x
    \<Rightarrow> 'c ReversalGraphCursor list" where
  "reversal_prev nxt prv r context = reversal_range (nxt context (reversal_base r))"

subsection \<open>RestrictedGraphCursor\<close>

text \<open>
  A restricted cursor is its base object and the member \<open>pspace_\<close>, a pointer to the
  search space. The space is never written while cursors exist, so the pointer is
  modelled by the set it points to.
\<close>

datatype 'c RestrictedGraphCursor = Restricted (restricted_base: 'c) (pspace: "'c set")

fun restricted_filter :: "'c set \<Rightarrow> 'c list \<Rightarrow> 'c RestrictedGraphCursor list" where
  "restricted_filter space [] = []"
| "restricted_filter space (cursor # v) =
     (if cursor \<in> space then Restricted cursor space # restricted_filter space v
      else restricted_filter space v)"

definition restricted_next ::
  "('x \<Rightarrow> 'c \<Rightarrow> 'c list) \<Rightarrow> 'c RestrictedGraphCursor \<Rightarrow> 'x \<Rightarrow> 'c RestrictedGraphCursor list" where
  "restricted_next nxt r context = restricted_filter (pspace r) (nxt context (restricted_base r))"

definition restricted_prev ::
  "('x \<Rightarrow> 'c \<Rightarrow> 'c list) \<Rightarrow> 'c RestrictedGraphCursor \<Rightarrow> 'x \<Rightarrow> 'c RestrictedGraphCursor list" where
  "restricted_prev prv r context = restricted_filter (pspace r) (prv context (restricted_base r))"

fun make_restricted_cursors :: "'c list \<Rightarrow> 'c set \<Rightarrow> 'c RestrictedGraphCursor list" where
  "make_restricted_cursors [] space = []"
| "make_restricted_cursors (cursor # cursors) space =
     Restricted cursor space # make_restricted_cursors cursors space"

subsection \<open>OptimizedRestrictedGraphCursor\<close>

text \<open>
  The optimized cursor has no member of its own; the space travels in the context
  \<open>OptimizedRestrictedGraphCursorContext\<close>, next to the base cursor's context (the
  member \<open>context\<close>, here \<open>base_context\<close>).
\<close>

datatype 'c OptimizedRestrictedGraphCursor = Optimized (optimized_base: 'c)

record ('c, 'x) OptimizedRestrictedGraphCursorContext =
  space :: "'c set"
  base_context :: 'x

fun optimized_filter :: "'c list \<Rightarrow> 'c set \<Rightarrow> 'c OptimizedRestrictedGraphCursor list" where
  "optimized_filter [] sp = []"
| "optimized_filter (cursor # v) sp =
     (if cursor \<in> sp then Optimized cursor # optimized_filter v sp
      else optimized_filter v sp)"

definition optimized_next ::
  "('x \<Rightarrow> 'c \<Rightarrow> 'c list) \<Rightarrow> 'c OptimizedRestrictedGraphCursor
    \<Rightarrow> ('c, 'x) OptimizedRestrictedGraphCursorContext \<Rightarrow> 'c OptimizedRestrictedGraphCursor list" where
  "optimized_next nxt c ctx = optimized_filter (nxt (base_context ctx) (optimized_base c)) (space ctx)"

definition optimized_prev ::
  "('x \<Rightarrow> 'c \<Rightarrow> 'c list) \<Rightarrow> 'c OptimizedRestrictedGraphCursor
    \<Rightarrow> ('c, 'x) OptimizedRestrictedGraphCursorContext \<Rightarrow> 'c OptimizedRestrictedGraphCursor list" where
  "optimized_prev prv c ctx = optimized_filter (prv (base_context ctx) (optimized_base c)) (space ctx)"

definition make_optimized_restricted_cursor_context ::
  "'c set \<Rightarrow> 'x \<Rightarrow> ('c, 'x) OptimizedRestrictedGraphCursorContext" where
  "make_optimized_restricted_cursor_context sp ctx = \<lparr>space = sp, base_context = ctx\<rparr>"

fun make_optimized_restricted_cursors :: "'c list \<Rightarrow> 'c OptimizedRestrictedGraphCursor list" where
  "make_optimized_restricted_cursors [] = []"
| "make_optimized_restricted_cursors (cursor # cursors) =
     Optimized cursor # make_optimized_restricted_cursors cursors"

section \<open>The graph substrate the search reads\<close>

text \<open>
  \<open>ConjugateDeBruijnGraph\<close> is outside this development; the search reads four things
  of it, taken here as the fields of a record: the start and end vertex of an edge, the
  nucleotide sequence of an edge, and the k-mer order (\<open>g.k()\<close>).
\<close>

record ('e, 'v, 'n) graph =
  EdgeStart :: "'e \<Rightarrow> 'v"
  EdgeEnd :: "'e \<Rightarrow> 'v"
  EdgeNucls :: "'e \<Rightarrow> 'n list"
  graph_k :: nat

text \<open>
  \<open>DeBruijnDataMaster::length\<close>: \<open>data.nucls().size() - k_\<close>, a subtraction in \<open>size_t\<close>
  (\<open>k_\<close> is an \<open>unsigned\<close>, widened): below zero it wraps around by \<open>2 ^ 64\<close>.
\<close>

definition edge_length :: "nat \<Rightarrow> 'n list \<Rightarrow> nat" where
  "edge_length k nucls =
     (if k \<le> length nucls then length nucls - k else 2 ^ 64 + length nucls - k)"

definition graph_length :: "('e, 'v, 'n) graph \<Rightarrow> 'e \<Rightarrow> nat" where
  "graph_length g e = edge_length (graph_k g) (EdgeNucls g e)"

text \<open>What stops a run: an iterator or index read outside its vector, a failed \<open>VERIFY\<close>.\<close>

datatype failure = PastTheEnd | VerifyFailed

section \<open>Path materializer (graph-hmm/main.cpp)\<close>

subsection \<open>to_path\<close>

text \<open>
  The cursor type is a template parameter; \<open>to_path\<close> uses its members \<open>is_empty\<close> and
  \<open>edge\<close>, passed here as functions. The iterator \<open>it\<close> is an index into \<open>cpath\<close>, and
  \<open>cpath.end()\<close> is \<open>length cpath\<close>.

  The first loop, \<open>while (it->is_empty()) ++it;\<close>, reads \<open>*it\<close> with no comparison
  against \<open>cpath.end()\<close>: reading at the end is the failure \<open>PastTheEnd\<close>.
\<close>

function skip_empty :: "('c \<Rightarrow> bool) \<Rightarrow> 'c list \<Rightarrow> nat \<Rightarrow> failure + nat" where
  "skip_empty is_empty cpath it =
     (if length cpath \<le> it then Inl PastTheEnd
      else if is_empty (cpath ! it) then skip_empty is_empty cpath (Suc it)
      else Inr it)"
  by pat_completeness auto
termination
  by (relation "measure (\<lambda>(is_empty, cpath, it). length cpath - it)") auto

text \<open>
  The second loop, \<open>for (; it != cpath.end(); ++it)\<close>; it starts at an index below the
  end and moves by one, so \<open>it != cpath.end()\<close> is \<open>it < length cpath\<close>. The vector
  \<open>path\<close> of the source is \<open>acc\<close>.
\<close>

function to_path_loop ::
  "('c \<Rightarrow> bool) \<Rightarrow> ('c \<Rightarrow> 'e) \<Rightarrow> 'c list \<Rightarrow> nat \<Rightarrow> 'e list \<Rightarrow> 'e list" where
  "to_path_loop is_empty edge cpath it acc =
     (if it < length cpath then
        (if is_empty (cpath ! it) then to_path_loop is_empty edge cpath (Suc it) acc
         else if length acc = 0 \<or> edge (cpath ! it) \<noteq> last acc
           then to_path_loop is_empty edge cpath (Suc it) (acc @ [edge (cpath ! it)])
         else to_path_loop is_empty edge cpath (Suc it) acc)
      else acc)"
  by pat_completeness auto
termination
  by (relation "measure (\<lambda>(is_empty, edge, cpath, it, acc). length cpath - it)") auto

definition to_path :: "('c \<Rightarrow> bool) \<Rightarrow> ('c \<Rightarrow> 'e) \<Rightarrow> 'c list \<Rightarrow> failure + 'e list" where
  "to_path is_empty edge cpath =
     (case skip_empty is_empty cpath 0 of
        Inl f \<Rightarrow> Inl f
      | Inr it \<Rightarrow> Inr (to_path_loop is_empty edge cpath it []))"

text \<open>
  The decorated cursors inherit \<open>is_empty\<close> and \<open>edge\<close> from their base class.
\<close>

definition restricted_is_empty :: "('c \<Rightarrow> bool) \<Rightarrow> 'c RestrictedGraphCursor \<Rightarrow> bool" where
  "restricted_is_empty is_empty r = is_empty (restricted_base r)"

definition restricted_edge :: "('c \<Rightarrow> 'e) \<Rightarrow> 'c RestrictedGraphCursor \<Rightarrow> 'e" where
  "restricted_edge edge r = edge (restricted_base r)"

definition optimized_is_empty :: "('c \<Rightarrow> bool) \<Rightarrow> 'c OptimizedRestrictedGraphCursor \<Rightarrow> bool" where
  "optimized_is_empty is_empty c = is_empty (optimized_base c)"

definition optimized_edge :: "('c \<Rightarrow> 'e) \<Rightarrow> 'c OptimizedRestrictedGraphCursor \<Rightarrow> 'e" where
  "optimized_edge edge c = edge (optimized_base c)"

text \<open>
  \<open>letter\<close>: the restricted cursor inherits the base's member; the optimized cursor
  overrides it to pass the base's context on (\<open>GraphCursor::letter(context->context)\<close>).
\<close>

definition restricted_letter :: "('x \<Rightarrow> 'c \<Rightarrow> char) \<Rightarrow> 'c RestrictedGraphCursor \<Rightarrow> 'x \<Rightarrow> char" where
  "restricted_letter letter r ctx = letter ctx (restricted_base r)"

definition optimized_letter ::
  "('x \<Rightarrow> 'c \<Rightarrow> char) \<Rightarrow> 'c OptimizedRestrictedGraphCursor
    \<Rightarrow> ('c, 'x) OptimizedRestrictedGraphCursorContext \<Rightarrow> char" where
  "optimized_letter letter c ctx = letter (base_context ctx) (optimized_base c)"

text \<open>
  Two decorated cursors are at the same position of the search when they wrap the same
  base cursor and the restricted one points to the space the optimized one is given.
\<close>

definition same_position ::
  "'c set \<Rightarrow> 'c RestrictedGraphCursor \<Rightarrow> 'c OptimizedRestrictedGraphCursor \<Rightarrow> bool" where
  "same_position S r c = (restricted_base r = optimized_base c \<and> pspace r = S)"

subsection \<open>MergeSequences\<close>

text \<open>
  Modelled from the spec: \<open>MergeOverlappingSequences\<close> (sequence/sequence_tools.hpp) is
  not among the sources. The spec: "concatenate edge sequences such that each
  consecutive pair overlaps by exactly k residues": the first sequence whole, every
  later one without its first \<open>overlap\<close> residues.
\<close>

fun MergeOverlappingSequences :: "'n list list \<Rightarrow> nat \<Rightarrow> 'n list" where
  "MergeOverlappingSequences [] overlap = []"
| "MergeOverlappingSequences (s # ss) overlap = s @ concat (map (drop overlap) ss)"

text \<open>
  The loop of \<open>MergeSequences\<close> from \<open>i = 1\<close>, with \<open>prev\<close> the edge
  \<open>continuous_path[i - 1]\<close>: the \<open>VERIFY\<close>, then the \<open>push_back\<close>.
\<close>

fun merge_sequences_loop ::
  "('e, 'v, 'n) graph \<Rightarrow> 'e \<Rightarrow> 'e list \<Rightarrow> 'n list list \<Rightarrow> failure + 'n list list" where
  "merge_sequences_loop g prev [] path_sequences = Inr path_sequences"
| "merge_sequences_loop g prev (e # rest) path_sequences =
     (if EdgeEnd g prev = EdgeStart g e
      then merge_sequences_loop g e rest (path_sequences @ [EdgeNucls g e])
      else Inl VerifyFailed)"

text \<open>\<open>continuous_path[0]\<close> on an empty vector reads outside it.\<close>

fun MergeSequences :: "('e, 'v, 'n) graph \<Rightarrow> 'e list \<Rightarrow> failure + 'n list" where
  "MergeSequences g [] = Inl PastTheEnd"
| "MergeSequences g (e # rest) =
     (case merge_sequences_loop g e rest [EdgeNucls g e] of
        Inl f \<Rightarrow> Inl f
      | Inr path_sequences \<Rightarrow> Inr (MergeOverlappingSequences path_sequences (graph_k g)))"

text \<open>
  The precondition of the length property, in the spec's words: every consecutive pair
  of the path is adjacent, the end vertex of one edge is the start vertex of the next.
\<close>

fun continuous :: "('e, 'v, 'n) graph \<Rightarrow> 'e list \<Rightarrow> bool" where
  "continuous g [] = True"
| "continuous g [e] = True"
| "continuous g (e1 # e2 # rest) = (EdgeEnd g e1 = EdgeStart g e2 \<and> continuous g (e2 # rest))"

section \<open>Neighbourhood extraction (main, lines 312--345)\<close>

text \<open>
  The overhangs are a \<open>std::pair<unsigned, unsigned>\<close> and \<open>mult\<close> is a \<open>size_t\<close>:
  \<open>overhangs.first *= mult\<close> multiplies in 64 bits and stores the low 32 bits.
\<close>

definition mult :: "bool \<Rightarrow> 64 word" where
  "mult hmm_in_aas = (if hmm_in_aas then 6 else 2)"

definition scale_overhang :: "bool \<Rightarrow> 32 word \<Rightarrow> 32 word" where
  "scale_overhang hmm_in_aas overhang = ucast ((ucast overhang :: 64 word) * mult hmm_in_aas)"

text \<open>
  The two bounded traversals (\<open>CreateEdgeBoundedDijkstra\<close>,
  \<open>CreateBackwardEdgeBoundedDijkstra\<close>, then \<open>Run\<close> and \<open>ReachedVertices\<close>) belong to the
  substrate: they are the functions \<open>fdijkstra\<close> and \<open>bdijkstra\<close> from a bound and a
  start vertex to the reached vertices. Every run is recorded, so that the model tells
  a traversal that reached nothing from a traversal that never ran.
\<close>

datatype 'v traversal = ForwardRun "32 word" 'v | BackwardRun "32 word" 'v

definition extract_neighbourhood ::
  "('e, 'v, 'n) graph \<Rightarrow> (32 word \<Rightarrow> 'v \<Rightarrow> 'v list) \<Rightarrow> (32 word \<Rightarrow> 'v \<Rightarrow> 'v list) \<Rightarrow> bool
    \<Rightarrow> 'e \<Rightarrow> 32 word \<times> 32 word \<Rightarrow> 'v set \<times> 'v traversal list" where
  "extract_neighbourhood g fdijkstra bdijkstra hmm_in_aas e entry =
     (let first = scale_overhang hmm_in_aas (fst entry);
          second = scale_overhang hmm_in_aas (snd entry);
          (fvertices, fruns) =
            (if second > 0
             then (fdijkstra second (EdgeEnd g e), [ForwardRun second (EdgeEnd g e)])
             else ([], []));
          (bvertices, bruns) =
            (if first > 0
             then (bdijkstra first (EdgeStart g e), [BackwardRun first (EdgeStart g e)])
             else ([], []))
      in (insert (EdgeStart g e) (insert (EdgeEnd g e) (set fvertices \<union> set bvertices)),
          fruns @ bruns))"

section \<open>Joining components (main, lines 348--358)\<close>

text \<open>
  \<open>neighbourhoods\<close> is a \<open>std::unordered_map\<close> from leader edge to vertex set. The loops
  walk it in its iteration order, whatever that is: the map is the list of its entries
  in that order. \<open>erase\<close> keeps the order of the other entries.

  The inner loop, from \<open>to_check = std::next(it)\<close> to the end: \<open>vs\<close> is \<open>it->second\<close>,
  the list is what lies after \<open>it\<close>. It returns the grown \<open>it->second\<close> and the entries
  that were not erased.
\<close>

fun join_inner ::
  "('e, 'v, 'n) graph \<Rightarrow> 'v set \<Rightarrow> ('e \<times> 'v set) list \<Rightarrow> 'v set \<times> ('e \<times> 'v set) list" where
  "join_inner g vs [] = (vs, [])"
| "join_inner g vs (to_check # rest) =
     (let vstart = EdgeStart g (fst to_check); vend = EdgeEnd g (fst to_check)
      in if vstart \<in> vs \<or> vend \<in> vs
         then join_inner g (vs \<union> snd to_check) rest
         else (case join_inner g vs rest of (vs', kept) \<Rightarrow> (vs', to_check # kept)))"

lemma join_inner_length: "length (snd (join_inner g vs rest)) \<le> length rest"
proof (induction rest arbitrary: vs)
  case Nil
  show ?case by simp
next
  case (Cons to_check rest)
  have absorbed: "length (snd (join_inner g (vs \<union> snd to_check) rest)) \<le> Suc (length rest)"
    using Cons.IH [of "vs \<union> snd to_check"] by simp
  have kept: "length (snd (join_inner g vs rest)) \<le> length rest"
    using Cons.IH [of vs] by simp
  show ?case
    using absorbed kept by (auto simp: Let_def split: prod.splits)
qed

text \<open>The outer loop over \<open>it\<close>.\<close>

function join_components ::
  "('e, 'v, 'n) graph \<Rightarrow> ('e \<times> 'v set) list \<Rightarrow> ('e \<times> 'v set) list" where
  "join_components g [] = []"
| "join_components g (it # rest) =
     (case join_inner g (snd it) rest of
        (vs', kept) \<Rightarrow> (fst it, vs') # join_components g kept)"
  by pat_completeness auto
termination
proof (relation "measure (\<lambda>(g, m). length m)", goal_cases)
  case 1
  show ?case by simp
next
  case (2 g it rest vs' kept)
  then have "kept = snd (join_inner g (snd it) rest)"
    by (metis snd_conv)
  then have "length kept \<le> length rest"
    by (simp add: join_inner_length)
  then show ?case
    by simp
qed

text \<open>
  The fixed point the spec asks of the merger: no two entries of the mapping have
  intersecting vertex sets.
\<close>

fun no_intersections :: "('e \<times> 'v set) list \<Rightarrow> bool" where
  "no_intersections [] = True"
| "no_intersections (entry # m) =
     (list_all (\<lambda>other. snd entry \<inter> snd other = {}) m \<and> no_intersections m)"

text \<open>
  One absorption, as the test at line 352 allows it: an entry \<open>(b, vb)\<close> that stands
  after an entry \<open>(a, va)\<close> is removed and \<open>va\<close> becomes \<open>va \<union> vb\<close>, provided \<open>va\<close> holds
  the start or the end vertex of the edge \<open>b\<close>. A mapping is merged by leader endpoints
  into another when a sequence of such absorptions leads from the one to the other.
\<close>

inductive absorb_step ::
  "('e, 'v, 'n) graph \<Rightarrow> ('e \<times> 'v set) list \<Rightarrow> ('e \<times> 'v set) list \<Rightarrow> bool" for g where
  absorb: "EdgeStart g b \<in> va \<or> EdgeEnd g b \<in> va
    \<Longrightarrow> absorb_step g (pre @ (a, va) # mid @ (b, vb) # post) (pre @ (a, va \<union> vb) # mid @ post)"

code_pred absorb_step .

section \<open>Path search driver (main, lines 361--442)\<close>

text \<open>\<open>struct PathInfo\<close>; \<open>unsigned\<close> is 32 bits wide.\<close>

record 'e PathInfo =
  leader :: 'e
  priority :: "32 word"
  seq :: string
  path :: "'e list"

text \<open>The fields of \<open>struct cfg\<close> the driver reads (\<open>top\<close> is \<open>cfg_top\<close> here).\<close>

record cfg =
  cfg_top :: "64 word"
  min_size :: "32 word"
  max_size :: "32 word"
  draw :: bool

text \<open>
  What the driver does besides filling \<open>results\<close>: the two log lines of the size
  checks, the pictures, and the search itself.
\<close>

datatype ('e, 'v) event =
    InfoTooSmall 'e
  | WarnTooLarge 'e
  | DrawComponent 'e
  | RunSearch 'e
  | DrawPaths 'e "'e list set"

text \<open>
  The aligner is outside this development. \<open>all(component)\<close>, \<open>make_aa_cursors\<close>,
  \<open>find_best_path(fees, initial)\<close> and \<open>result.top_k(top)\<close> together are the function
  \<open>top_paths\<close>: from the alphabet flag, the component's vertex set and \<open>top\<close> to the
  top paths in their order, each a cursor sequence with its string
  (\<open>top_paths.str(kv.first)\<close>).

  The loop of \<open>run_search\<close> over \<open>top_paths\<close>, with the counter \<open>idx\<close> (a \<open>size_t\<close>,
  stored into the \<open>unsigned\<close> priority):
\<close>

fun run_search_loop ::
  "('c \<Rightarrow> bool) \<Rightarrow> ('c \<Rightarrow> 'e) \<Rightarrow> 'e \<Rightarrow> 64 word \<Rightarrow> ('c list \<times> string) list
    \<Rightarrow> failure + 'e PathInfo list" where
  "run_search_loop is_empty edge e idx [] = Inr []"
| "run_search_loop is_empty edge e idx (kv # kvs) =
     (case to_path is_empty edge (fst kv) of
        Inl f \<Rightarrow> Inl f
      | Inr p \<Rightarrow>
          (case run_search_loop is_empty edge e (idx + 1) kvs of
             Inl f \<Rightarrow> Inl f
           | Inr local_results \<Rightarrow>
               Inr (\<lparr>leader = e, priority = ucast idx, seq = snd kv, path = p\<rparr> # local_results)))"

record ('e, 'v) driver_state =
  results :: "'e PathInfo list"
  events :: "('e, 'v) event list"

text \<open>
  One turn of the loop over \<open>neighbourhoods\<close>. \<open>e_size\<close> is
  \<open>GraphComponent::FromVertices(graph, ..., true).e_size()\<close> of the entry's vertex set, a
  \<open>size_t\<close>; the thresholds are \<open>unsigned\<close> and are widened for the comparison.
\<close>

definition process_component ::
  "cfg \<Rightarrow> (bool \<Rightarrow> 'v set \<Rightarrow> 64 word \<Rightarrow> ('c list \<times> string) list) \<Rightarrow> ('c \<Rightarrow> bool) \<Rightarrow> ('c \<Rightarrow> 'e)
    \<Rightarrow> ('v set \<Rightarrow> 64 word) \<Rightarrow> bool \<Rightarrow> ('e, 'v) driver_state \<Rightarrow> 'e \<times> 'v set
    \<Rightarrow> failure + ('e, 'v) driver_state" where
  "process_component c top_paths is_empty edge e_size hmm_in_aas st kv =
     (let e = fst kv in
      if e_size (snd kv) div 2 < ucast (min_size c) then
        Inr (st\<lparr>results := results st @ [\<lparr>leader = e, priority = 0, seq = [], path = [e]\<rparr>],
                events := events st @ [InfoTooSmall e]\<rparr>)
      else if e_size (snd kv) div 2 > ucast (max_size c) then
        Inr (st\<lparr>events := events st @ [WarnTooLarge e]\<rparr>)
      else
        (case run_search_loop is_empty edge e 0 (top_paths hmm_in_aas (snd kv) (cfg_top c)) of
           Inl f \<Rightarrow> Inl f
         | Inr local_results \<Rightarrow>
             Inr (st\<lparr>results := results st @ local_results,
                     events := events st
                       @ (if draw c then [DrawComponent e] else [])
                       @ [RunSearch e]
                       @ (if draw c then [DrawPaths e (set (map path local_results))] else [])\<rparr>)))"

text \<open>The loop itself; a failure ends the run.\<close>

fun path_search ::
  "cfg \<Rightarrow> (bool \<Rightarrow> 'v set \<Rightarrow> 64 word \<Rightarrow> ('c list \<times> string) list) \<Rightarrow> ('c \<Rightarrow> bool) \<Rightarrow> ('c \<Rightarrow> 'e)
    \<Rightarrow> ('v set \<Rightarrow> 64 word) \<Rightarrow> bool \<Rightarrow> ('e, 'v) driver_state \<Rightarrow> ('e \<times> 'v set) list
    \<Rightarrow> failure + ('e, 'v) driver_state" where
  "path_search c top_paths is_empty edge e_size hmm_in_aas st [] = Inr st"
| "path_search c top_paths is_empty edge e_size hmm_in_aas st (kv # neighbourhoods) =
     (case process_component c top_paths is_empty edge e_size hmm_in_aas st kv of
        Inl f \<Rightarrow> Inl f
      | Inr st' \<Rightarrow> path_search c top_paths is_empty edge e_size hmm_in_aas st' neighbourhoods)"

section \<open>Properties of the cursor decorators and of the materializer\<close>

declare skip_empty.simps [simp del]
declare to_path_loop.simps [simp del]

lemma reversal_range_map: "reversal_range result = map Reversal result"
  by (induction result) simp_all

lemma restricted_filter_base:
  "map restricted_base (restricted_filter S v) = filter (\<lambda>cursor. cursor \<in> S) v"
  by (induction v) simp_all

lemma restricted_filter_pspace: "r \<in> set (restricted_filter S v) \<Longrightarrow> pspace r = S"
  by (induction v) (auto split: if_splits)

lemma restricted_filter_member: "r \<in> set (restricted_filter S v) \<Longrightarrow> restricted_base r \<in> S"
  by (induction v) (auto split: if_splits)

lemma restricted_filter_from_base:
  "r \<in> set (restricted_filter S v) \<Longrightarrow> restricted_base r \<in> set v"
  by (induction v) (auto split: if_splits)

lemma optimized_filter_base:
  "map optimized_base (optimized_filter v S) = filter (\<lambda>cursor. cursor \<in> S) v"
  by (induction v) simp_all

lemma skip_empty_map:
  "skip_empty is_empty (map f cpath) it = skip_empty (\<lambda>c. is_empty (f c)) cpath it"
proof (induction "\<lambda>c. is_empty (f c)" cpath it rule: skip_empty.induct)
  case (1 cpath it)
  show ?case
  proof (cases "length cpath \<le> it")
    case True
    then show ?thesis
      by (simp add: skip_empty.simps [of _ _ it])
  next
    case False
    then show ?thesis
      using "1" by (simp add: skip_empty.simps [of _ _ it])
  qed
qed

lemma to_path_loop_map:
  "to_path_loop is_empty edge (map f cpath) it acc
     = to_path_loop (\<lambda>c. is_empty (f c)) (\<lambda>c. edge (f c)) cpath it acc"
proof (induction "\<lambda>c. is_empty (f c)" "\<lambda>c. edge (f c)" cpath it acc rule: to_path_loop.induct)
  case (1 cpath it acc)
  show ?case
  proof (cases "it < length cpath")
    case True
    then show ?thesis
      using "1" by (simp add: to_path_loop.simps [of _ _ _ it])
  next
    case False
    then show ?thesis
      by (simp add: to_path_loop.simps [of _ _ _ it])
  qed
qed

lemma to_path_map:
  "to_path is_empty edge (map f cpath) = to_path (\<lambda>c. is_empty (f c)) (\<lambda>c. edge (f c)) cpath"
  by (simp add: to_path_def skip_empty_map to_path_loop_map split: sum.splits)


lemma skip_empty_all_empty:
  "(\<And>j. it \<le> j \<Longrightarrow> j < length cpath \<Longrightarrow> is_empty (cpath ! j))
    \<Longrightarrow> skip_empty is_empty cpath it = Inl PastTheEnd"
proof (induction is_empty cpath it rule: skip_empty.induct)
  case (1 is_empty cpath it)
  show ?case
  proof (cases "length cpath \<le> it")
    case True
    then show ?thesis
      by (simp add: skip_empty.simps [of _ _ it])
  next
    case False
    then have here: "is_empty (cpath ! it)"
      using "1.prems" [of it] by simp
    have "skip_empty is_empty cpath (Suc it) = Inl PastTheEnd"
      using "1.IH" False here "1.prems" by simp
    then show ?thesis
      using False here by (simp add: skip_empty.simps [of _ _ it])
  qed
qed

lemma skip_empty_finds:
  "it \<le> j \<Longrightarrow> j < length cpath \<Longrightarrow> \<not> is_empty (cpath ! j)
    \<Longrightarrow> \<exists>m. skip_empty is_empty cpath it = Inr m \<and> it \<le> m \<and> m < length cpath
          \<and> \<not> is_empty (cpath ! m) \<and> (\<forall>l. it \<le> l \<and> l < m \<longrightarrow> is_empty (cpath ! l))"
proof (induction is_empty cpath it rule: skip_empty.induct)
  case (1 is_empty cpath it)
  have inside: "\<not> length cpath \<le> it"
    using "1.prems" by simp
  show ?case
  proof (cases "is_empty (cpath ! it)")
    case False
    then have "skip_empty is_empty cpath it = Inr it"
      using inside by (simp add: skip_empty.simps [of _ _ it])
    then show ?thesis
      using False inside by auto
  next
    case True
    then have "it \<noteq> j"
      using "1.prems" by auto
    then have "Suc it \<le> j"
      using "1.prems" by simp
    then obtain m where m: "skip_empty is_empty cpath (Suc it) = Inr m" "Suc it \<le> m"
      "m < length cpath" "\<not> is_empty (cpath ! m)"
      "\<forall>l. Suc it \<le> l \<and> l < m \<longrightarrow> is_empty (cpath ! l)"
      using "1.IH" [OF inside True] "1.prems" by blast
    have step: "skip_empty is_empty cpath it = Inr m"
      using inside True m(1) by (simp add: skip_empty.simps [of _ _ it])
    have "\<forall>l. it \<le> l \<and> l < m \<longrightarrow> is_empty (cpath ! l)"
    proof (intro allI impI)
      fix l assume l: "it \<le> l \<and> l < m"
      show "is_empty (cpath ! l)"
      proof (cases "l = it")
        case True
        then show ?thesis using \<open>is_empty (cpath ! it)\<close> by simp
      next
        case False
        then show ?thesis using l m(5) by simp
      qed
    qed
    then show ?thesis
      using step m by auto
  qed
qed

lemma to_path_loop_collapse:
  "to_path_loop is_empty edge cpath it acc =
     (if acc = [] then remdups_adj (map edge (filter (\<lambda>c. \<not> is_empty c) (drop it cpath)))
      else butlast acc @ remdups_adj (last acc # map edge (filter (\<lambda>c. \<not> is_empty c) (drop it cpath))))"
proof (induction is_empty edge cpath it acc rule: to_path_loop.induct)
  case (1 is_empty edge cpath it acc)
  show ?case
  proof (cases "it < length cpath")
    case False
    then show ?thesis
      by (simp add: to_path_loop.simps [of _ _ _ it])
  next
    case True
    then have unfold_drop: "drop it cpath = cpath ! it # drop (Suc it) cpath"
      by (simp add: Cons_nth_drop_Suc)
    show ?thesis
    proof (cases "is_empty (cpath ! it)")
      case True
      then show ?thesis
        using "1.IH"(1) \<open>it < length cpath\<close> unfold_drop
        by (simp add: to_path_loop.simps [of _ _ _ it])
    next
      case False
      show ?thesis
      proof (cases "length acc = 0 \<or> edge (cpath ! it) \<noteq> last acc")
        case True
        have "to_path_loop is_empty edge cpath it acc
                = to_path_loop is_empty edge cpath (Suc it) (acc @ [edge (cpath ! it)])"
          using True False \<open>it < length cpath\<close> by (simp add: to_path_loop.simps [of _ _ _ it])
        also have "\<dots> = butlast (acc @ [edge (cpath ! it)])
                    @ remdups_adj (last (acc @ [edge (cpath ! it)])
                        # map edge (filter (\<lambda>c. \<not> is_empty c) (drop (Suc it) cpath)))"
          using "1.IH"(2) [OF \<open>it < length cpath\<close> False True] by simp
        also have "\<dots> = acc @ remdups_adj (edge (cpath ! it)
                        # map edge (filter (\<lambda>c. \<not> is_empty c) (drop (Suc it) cpath)))"
          by simp
        finally have eq: "to_path_loop is_empty edge cpath it acc
              = acc @ remdups_adj (edge (cpath ! it)
                        # map edge (filter (\<lambda>c. \<not> is_empty c) (drop (Suc it) cpath)))" .
        show ?thesis
        proof (cases "acc = []")
          case True
          then show ?thesis using eq unfold_drop False by simp
        next
          case nonempty: False
          then have "edge (cpath ! it) \<noteq> last acc" using True by simp
          then have "remdups_adj (last acc # edge (cpath ! it)
                        # map edge (filter (\<lambda>c. \<not> is_empty c) (drop (Suc it) cpath)))
                 = last acc # remdups_adj (edge (cpath ! it)
                        # map edge (filter (\<lambda>c. \<not> is_empty c) (drop (Suc it) cpath)))"
            by simp
          then show ?thesis
            using eq unfold_drop False nonempty
            by (simp add: append_butlast_last_id [symmetric] del: append_butlast_last_id remdups_adj.simps)
        qed
      next
        case same: False
        then have nonempty: "acc \<noteq> []" and last_eq: "edge (cpath ! it) = last acc"
          by auto
        have "to_path_loop is_empty edge cpath it acc
                = to_path_loop is_empty edge cpath (Suc it) acc"
          using same False \<open>it < length cpath\<close> by (simp add: to_path_loop.simps [of _ _ _ it])
        also have "\<dots> = butlast acc @ remdups_adj (last acc
                        # map edge (filter (\<lambda>c. \<not> is_empty c) (drop (Suc it) cpath)))"
          using "1.IH"(3) [OF \<open>it < length cpath\<close> False same] nonempty by simp
        finally show ?thesis
          using unfold_drop False nonempty last_eq by simp
      qed
    qed
  qed
qed


lemma to_path_char:
  "to_path is_empty edge cpath =
     (if \<exists>c \<in> set cpath. \<not> is_empty c
      then Inr (remdups_adj (map edge (filter (\<lambda>c. \<not> is_empty c) cpath)))
      else Inl PastTheEnd)"
proof (cases "\<exists>c \<in> set cpath. \<not> is_empty c")
  case False
  then have "skip_empty is_empty cpath 0 = Inl PastTheEnd"
    by (intro skip_empty_all_empty) simp
  then show ?thesis
    using False by (simp add: to_path_def)
next
  case True
  then obtain j where j: "j < length cpath" "\<not> is_empty (cpath ! j)"
    by (auto simp: in_set_conv_nth)
  obtain m where m: "skip_empty is_empty cpath 0 = Inr m" "m < length cpath"
    "\<forall>l. 0 \<le> l \<and> l < m \<longrightarrow> is_empty (cpath ! l)"
    using skip_empty_finds [of 0 j cpath is_empty] j by blast
  have "\<forall>c \<in> set (take m cpath). is_empty c"
    using m(2,3) by (auto simp: in_set_conv_nth)
  then have "filter (\<lambda>c. \<not> is_empty c) (take m cpath) = []"
    by (simp add: filter_empty_conv)
  then have "filter (\<lambda>c. \<not> is_empty c) cpath = filter (\<lambda>c. \<not> is_empty c) (drop m cpath)"
    using filter_append [of "\<lambda>c. \<not> is_empty c" "take m cpath" "drop m cpath"] by simp
  then show ?thesis
    using True m(1) by (simp add: to_path_def to_path_loop_collapse)
qed

text \<open>
  Claim C3 (cursor duality). For every base cursor \<open>c\<close> and context \<open>x\<close>, \<open>next\<close> of the
  reversal of \<open>c\<close> is the list \<open>c.prev(x)\<close> with every element wrapped as a reversal
  cursor, same elements in the same order; and \<open>prev\<close> of the reversal is \<open>c.next(x)\<close>
  wrapped the same way.
\<close>
theorem reversal_duality:
  "reversal_next nxt prv (Reversal c) x = map Reversal (prv x c)
   \<and> reversal_prev nxt prv (Reversal c) x = map Reversal (nxt x c)"
  by (simp add: reversal_next_def reversal_prev_def reversal_range_map)

theorem reversal_duality_witness:
  "reversal_next (\<lambda>x c. [c + 1, c + 2]) (\<lambda>x c. [c - 1]) (Reversal (5::nat)) () = [Reversal 4]
   \<and> reversal_prev (\<lambda>x c. [c + 1, c + 2]) (\<lambda>x c. [c - 1]) (Reversal (5::nat)) ()
       = [Reversal 6, Reversal 7]"
  using reversal_duality [of "\<lambda>x c. [c + 1, c + 2]" "\<lambda>x c. [c - 1]" "5::nat" "()"]
  by simp

text \<open>
  Claim C4 (restriction closure). For every base cursor \<open>c\<close>, space \<open>S\<close> and context \<open>x\<close>,
  every cursor that \<open>next\<close> (or \<open>prev\<close>) of the restriction of \<open>c\<close> to \<open>S\<close> returns is a
  member of \<open>S\<close>, carries the same space, and is one of the base's successors (or
  predecessors). The result is exactly the base's result with the non-members left
  out, in the base's order: the call has no failure value, a successor outside \<open>S\<close> is
  dropped and nothing else happens.
\<close>
theorem restriction_closure:
  "(\<forall>r \<in> set (restricted_next nxt (Restricted c S) x).
       restricted_base r \<in> S \<and> pspace r = S \<and> restricted_base r \<in> set (nxt x c))
   \<and> (\<forall>r \<in> set (restricted_prev prv (Restricted c S) x).
       restricted_base r \<in> S \<and> pspace r = S \<and> restricted_base r \<in> set (prv x c))
   \<and> map restricted_base (restricted_next nxt (Restricted c S) x)
       = filter (\<lambda>cursor. cursor \<in> S) (nxt x c)
   \<and> map restricted_base (restricted_prev prv (Restricted c S) x)
       = filter (\<lambda>cursor. cursor \<in> S) (prv x c)"
  by (auto simp: restricted_next_def restricted_prev_def restricted_filter_base
      dest: restricted_filter_member restricted_filter_pspace restricted_filter_from_base)

theorem restriction_closure_witness:
  "restricted_next (\<lambda>x c. [c + 1, c + 2, c + 3]) (Restricted (5::nat) {6, 8, 4}) ()
     = [Restricted 6 {6, 8, 4}, Restricted 8 {6, 8, 4}]
   \<and> restricted_prev (\<lambda>x c. [c - 1, c - 2]) (Restricted (5::nat) {6, 8, 4}) ()
     = [Restricted 4 {6, 8, 4}]"
  using restriction_closure [of "\<lambda>x c. [c + 1, c + 2, c + 3]" "5::nat" "{6, 8, 4}" "()"
      "\<lambda>x c. [c - 1, c - 2]"]
  by (simp add: restricted_next_def restricted_prev_def)


lemma filters_same_position:
  "list_all2 (same_position S) (restricted_filter S v) (optimized_filter v S)"
  by (induction v) (simp_all add: same_position_def)

lemma makes_same_position:
  "list_all2 (same_position S) (make_restricted_cursors cursors S)
     (make_optimized_restricted_cursors cursors)"
  by (induction cursors) (simp_all add: same_position_def)

lemma same_position_bases:
  "list_all2 (same_position S) rs cs \<Longrightarrow> map restricted_base rs = map optimized_base cs"
  by (induction rule: list_all2_induct) (simp_all add: same_position_def)

lemma to_path_restricted:
  "to_path (restricted_is_empty is_empty) (restricted_edge edge) rs
     = to_path is_empty edge (map restricted_base rs)"
proof -
  have "restricted_is_empty is_empty = (\<lambda>r. is_empty (restricted_base r))"
    and "restricted_edge edge = (\<lambda>r. edge (restricted_base r))"
    by (simp_all add: fun_eq_iff restricted_is_empty_def restricted_edge_def)
  then show ?thesis
    by (simp add: to_path_map)
qed

lemma to_path_optimized:
  "to_path (optimized_is_empty is_empty) (optimized_edge edge) cs
     = to_path is_empty edge (map optimized_base cs)"
proof -
  have "optimized_is_empty is_empty = (\<lambda>c. is_empty (optimized_base c))"
    and "optimized_edge edge = (\<lambda>c. edge (optimized_base c))"
    by (simp_all add: fun_eq_iff optimized_is_empty_def optimized_edge_def)
  then show ?thesis
    by (simp add: to_path_map)
qed

text \<open>
  Claim C2 (optimized against plain restriction). For every base cursor \<open>b\<close>, space \<open>S\<close>
  and context \<open>x\<close>, \<open>next\<close> and \<open>prev\<close> of \<open>Restricted b S\<close> and of \<open>Optimized b\<close> under
  the context that bundles \<open>S\<close> with \<open>x\<close> return the same base cursors in the same order.
  The two factories \<open>make_restricted_cursors\<close> and \<open>make_optimized_restricted_cursors\<close>
  start from cursors at the same positions, and positions stay the same under every
  further \<open>next\<close> and \<open>prev\<close>, since a restricted cursor hands its space to its
  successors; at the same position \<open>letter\<close> is the same. Two cursor sequences at the same positions give the same result of
  \<open>to_path\<close>, so the deduplicated edge paths are identical.
\<close>
theorem restriction_optimized_equivalence:
  "map restricted_base (restricted_next nxt (Restricted b S) x)
     = map optimized_base (optimized_next nxt (Optimized b) \<lparr>space = S, base_context = x\<rparr>)
   \<and> map restricted_base (restricted_prev prv (Restricted b S) x)
     = map optimized_base (optimized_prev prv (Optimized b) \<lparr>space = S, base_context = x\<rparr>)
   \<and> list_all2 (same_position S) (make_restricted_cursors cursors S)
        (make_optimized_restricted_cursors cursors)
   \<and> (same_position S r c \<longrightarrow>
        list_all2 (same_position S) (restricted_next nxt r x)
          (optimized_next nxt c \<lparr>space = S, base_context = x\<rparr>)
        \<and> list_all2 (same_position S) (restricted_prev prv r x)
          (optimized_prev prv c \<lparr>space = S, base_context = x\<rparr>)
        \<and> restricted_letter letter r x
          = optimized_letter letter c \<lparr>space = S, base_context = x\<rparr>)
   \<and> (list_all2 (same_position S) rs cs \<longrightarrow>
        to_path (restricted_is_empty is_empty) (restricted_edge edge) rs
          = to_path (optimized_is_empty is_empty) (optimized_edge edge) cs)"
proof (intro conjI impI)
  show "map restricted_base (restricted_next nxt (Restricted b S) x)
     = map optimized_base (optimized_next nxt (Optimized b) \<lparr>space = S, base_context = x\<rparr>)"
    by (simp add: restricted_next_def optimized_next_def restricted_filter_base
        optimized_filter_base)
  show "map restricted_base (restricted_prev prv (Restricted b S) x)
     = map optimized_base (optimized_prev prv (Optimized b) \<lparr>space = S, base_context = x\<rparr>)"
    by (simp add: restricted_prev_def optimized_prev_def restricted_filter_base
        optimized_filter_base)
  show "list_all2 (same_position S) (make_restricted_cursors cursors S)
        (make_optimized_restricted_cursors cursors)"
    by (rule makes_same_position)
next
  assume "same_position S r c"
  then show "list_all2 (same_position S) (restricted_next nxt r x)
          (optimized_next nxt c \<lparr>space = S, base_context = x\<rparr>)"
    using filters_same_position [of S "nxt x (optimized_base c)"]
    by (simp add: restricted_next_def optimized_next_def same_position_def)
next
  assume "same_position S r c"
  then show "list_all2 (same_position S) (restricted_prev prv r x)
          (optimized_prev prv c \<lparr>space = S, base_context = x\<rparr>)"
    using filters_same_position [of S "prv x (optimized_base c)"]
    by (simp add: restricted_prev_def optimized_prev_def same_position_def)
next
  assume "same_position S r c"
  then show "restricted_letter letter r x
          = optimized_letter letter c \<lparr>space = S, base_context = x\<rparr>"
    by (simp add: restricted_letter_def optimized_letter_def same_position_def)
next
  assume "list_all2 (same_position S) rs cs"
  then have "map restricted_base rs = map optimized_base cs"
    by (rule same_position_bases)
  then show "to_path (restricted_is_empty is_empty) (restricted_edge edge) rs
          = to_path (optimized_is_empty is_empty) (optimized_edge edge) cs"
    by (simp add: to_path_restricted to_path_optimized)
qed

theorem restriction_optimized_equivalence_witness:
  "list_all2 (same_position {6, 8, 4 :: nat})
        (restricted_next (\<lambda>x c. [c + 1, c + 2, c + 3]) (Restricted (5::nat) {6, 8, 4 :: nat}) ())
        (optimized_next (\<lambda>x c. [c + 1, c + 2, c + 3]) (Optimized (5::nat))
           \<lparr>space = {6, 8, 4 :: nat}, base_context = ()\<rparr>)
   \<and> to_path (restricted_is_empty (\<lambda>c. c = 0)) (restricted_edge (\<lambda>c. c div 2))
        [Restricted (0::nat) {6, 8, 4 :: nat}, Restricted (6::nat) {6, 8, 4 :: nat}]
       = to_path (optimized_is_empty (\<lambda>c. c = 0)) (optimized_edge (\<lambda>c. c div 2))
        [Optimized (0::nat), Optimized (6::nat)]"
proof -
  have start: "same_position {6, 8, 4 :: nat} (Restricted (5::nat) {6, 8, 4}) (Optimized 5)"
    by (simp add: same_position_def)
  have seqs: "list_all2 (same_position {6, 8, 4 :: nat})
      [Restricted (0::nat) {6, 8, 4}, Restricted 6 {6, 8, 4}] [Optimized 0, Optimized 6]"
    by (simp add: same_position_def)
  show ?thesis
    using start seqs
      restriction_optimized_equivalence [of "\<lambda>x c. [c + 1, c + 2, c + 3]" "5::nat"
        "{6, 8, 4 :: nat}" "()" "\<lambda>x c. [c - 1]" "[]" "Restricted 5 {6, 8, 4}" "Optimized 5"
        "\<lambda>x c. CHR ''A''"
        "[Restricted 0 {6, 8, 4}, Restricted 6 {6, 8, 4}]" "[Optimized 0, Optimized 6]"
        "\<lambda>c. c = 0" "\<lambda>c. c div 2"]
    by simp
qed

text \<open>
  Claim C7 as stated, for every cursor sequence, fails on the code: for the sequence of
  two empty cursors \<open>to_path\<close> does not return the edge path of the sequence with the
  empty cursors removed (the empty path); the loop that skips the leading empty cursors
  reads past the end. The same holds for the sequence with the empty cursors removed,
  which is the empty sequence.
\<close>

theorem to_path_collapses_counterexample:
  "to_path (\<lambda>c. c = None) the [None, None :: nat option] = Inl PastTheEnd
   \<and> to_path (\<lambda>c. c = None) the [None, None :: nat option]
       \<noteq> Inr (remdups_adj (map the (filter (\<lambda>c. \<not> c = None) [None, None :: nat option])))
   \<and> to_path (\<lambda>c. c = None) the (filter (\<lambda>c. \<not> c = None) [None, None :: nat option])
       = Inl PastTheEnd"
  by (simp add: to_path_def skip_empty.simps)

text \<open>
  Claim C7, amended (materializer collapse). For every cursor sequence that holds at
  least one non-empty cursor, \<open>to_path\<close> returns an edge path: it skips the empty
  cursors, leading or not, and appends a cursor's edge only when it differs from the
  edge appended last, so the path is the edges of the non-empty cursors with adjacent
  repeats collapsed. The same sequence with all empty cursors removed materializes to
  the same edge path.
\<close>

theorem to_path_collapses_nonempty:
  assumes "\<exists>c \<in> set cpath. \<not> is_empty c"
  shows "to_path is_empty edge cpath
           = Inr (remdups_adj (map edge (filter (\<lambda>c. \<not> is_empty c) cpath)))
       \<and> to_path is_empty edge (filter (\<lambda>c. \<not> is_empty c) cpath)
           = Inr (remdups_adj (map edge (filter (\<lambda>c. \<not> is_empty c) cpath)))"
  using assms by (auto simp: to_path_char)

theorem to_path_collapses_nonempty_witness:
  "to_path (\<lambda>c. c = None) the [None, None, Some (1::nat), None, Some 1, Some 2, None, None, Some 1]
     = Inr [1, 2, 1]
   \<and> to_path (\<lambda>c. c = None) the [Some (1::nat), Some 1, Some 2, Some 1] = Inr [1, 2, 1]"
  using to_path_collapses_nonempty [of
      "[None, None, Some (1::nat), None, Some 1, Some 2, None, None, Some 1]" "\<lambda>c. c = None" the]
  by simp

text \<open>
  Claim C10 (the precondition of \<open>to_path\<close>). When the cursor sequence holds a
  non-empty cursor, the loop that skips the leading empty cursors stops at an index
  inside the sequence and \<open>to_path\<close> returns a non-empty edge path. When every cursor
  is empty, and so for the empty sequence, that loop moves the iterator to the end and
  reads there.
\<close>
theorem to_path_precondition:
  "((\<exists>c \<in> set cpath. \<not> is_empty c) \<longrightarrow>
      (\<exists>it p. skip_empty is_empty cpath 0 = Inr it \<and> it < length cpath
         \<and> to_path is_empty edge cpath = Inr p \<and> p \<noteq> []))
   \<and> ((\<forall>c \<in> set cpath. is_empty c) \<longrightarrow>
      skip_empty is_empty cpath 0 = Inl PastTheEnd
      \<and> to_path is_empty edge cpath = Inl PastTheEnd)"
proof (intro conjI impI)
  assume some: "\<exists>c \<in> set cpath. \<not> is_empty c"
  then obtain j where "j < length cpath" "\<not> is_empty (cpath ! j)"
    by (auto simp: in_set_conv_nth)
  then obtain it where it: "skip_empty is_empty cpath 0 = Inr it" "it < length cpath"
    using skip_empty_finds [of 0 j cpath is_empty] by blast
  have "filter (\<lambda>c. \<not> is_empty c) cpath \<noteq> []"
    using some by (simp add: filter_empty_conv)
  then have "remdups_adj (map edge (filter (\<lambda>c. \<not> is_empty c) cpath)) \<noteq> []"
    by simp
  then show "\<exists>it p. skip_empty is_empty cpath 0 = Inr it \<and> it < length cpath
         \<and> to_path is_empty edge cpath = Inr p \<and> p \<noteq> []"
    using it some by (simp add: to_path_char)
next
  assume all: "\<forall>c \<in> set cpath. is_empty c"
  then show "skip_empty is_empty cpath 0 = Inl PastTheEnd"
    by (intro skip_empty_all_empty) simp
  show "to_path is_empty edge cpath = Inl PastTheEnd"
    using all by (simp add: to_path_char)
qed

theorem to_path_precondition_witness:
  "(\<exists>it p. skip_empty (\<lambda>c. c = None) [None, Some (7::nat)] 0 = Inr it \<and> it < 2
       \<and> to_path (\<lambda>c. c = None) the [None, Some (7::nat)] = Inr p \<and> p \<noteq> [])
   \<and> to_path (\<lambda>c. c = None) the [None, None :: nat option] = Inl PastTheEnd
   \<and> to_path (\<lambda>c. c = None) the ([] :: nat option list) = Inl PastTheEnd"
  using to_path_precondition [of "[None, Some (7::nat)]" "\<lambda>c. c = None" the]
    to_path_precondition [of "[None, None :: nat option]" "\<lambda>c. c = None" the]
    to_path_precondition [of "[] :: nat option list" "\<lambda>c. c = None" the]
  by (simp add: numeral_2_eq_2)


section \<open>Properties of MergeSequences\<close>

lemma merge_sequences_loop_char:
  "merge_sequences_loop g prev rest path_sequences =
     (if continuous g (prev # rest) then Inr (path_sequences @ map (EdgeNucls g) rest)
      else Inl VerifyFailed)"
  by (induction rest arbitrary: prev path_sequences) simp_all

lemma MergeSequences_char:
  "MergeSequences g (e # rest) =
     (if continuous g (e # rest)
      then Inr (MergeOverlappingSequences (map (EdgeNucls g) (e # rest)) (graph_k g))
      else Inl VerifyFailed)"
  by (simp add: merge_sequences_loop_char)

lemma length_concat_drop:
  "\<forall>s \<in> set ss. k \<le> length s
    \<Longrightarrow> length (concat (map (drop k) ss)) = sum_list (map (edge_length k) ss)"
  by (induction ss) (simp_all add: edge_length_def)

lemma length_MergeOverlappingSequences:
  assumes "ss \<noteq> []" and "\<forall>s \<in> set ss. k \<le> length s"
  shows "length (MergeOverlappingSequences ss k) = sum_list (map (edge_length k) ss) + k"
proof (cases ss)
  case Nil
  then show ?thesis using assms(1) by simp
next
  case (Cons s rest)
  then have "k \<le> length s" and "\<forall>s \<in> set rest. k \<le> length s"
    using assms(2) by simp_all
  then show ?thesis
    using Cons by (simp add: length_concat_drop edge_length_def)
qed

text \<open>
  Claim C8 (length of the materialized sequence). For a non-empty edge path whose
  consecutive edges are adjacent, over edges whose sequences have at least \<open>k\<close>
  residues, \<open>MergeSequences\<close> returns the merge of the edges' sequences with overlap
  \<open>k\<close>, and its length is the sum of the edges' lengths plus \<open>k\<close>, where the length of
  an edge is the length of its sequence minus \<open>k\<close>. For two adjacent edges that is
  \<open>length(e1) + length(e2) + k\<close>.
\<close>
theorem merge_sequences_length:
  assumes "continuous_path \<noteq> []"
    and "continuous g continuous_path"
    and "\<forall>e \<in> set continuous_path. graph_k g \<le> length (EdgeNucls g e)"
  shows "\<exists>s. MergeSequences g continuous_path = Inr s
           \<and> s = MergeOverlappingSequences (map (EdgeNucls g) continuous_path) (graph_k g)
           \<and> length s = sum_list (map (graph_length g) continuous_path) + graph_k g"
proof -
  obtain e rest where continuous_path: "continuous_path = e # rest"
    using assms(1) by (cases continuous_path) simp_all
  have merged: "MergeSequences g continuous_path
      = Inr (MergeOverlappingSequences (map (EdgeNucls g) continuous_path) (graph_k g))"
    using assms(2) continuous_path by (simp only: MergeSequences_char) simp
  have "length (MergeOverlappingSequences (map (EdgeNucls g) continuous_path) (graph_k g))
      = sum_list (map (edge_length (graph_k g)) (map (EdgeNucls g) continuous_path)) + graph_k g"
    using assms(1,3) by (intro length_MergeOverlappingSequences) simp_all
  also have "map (edge_length (graph_k g)) (map (EdgeNucls g) continuous_path) = map (graph_length g) continuous_path"
    by (simp add: graph_length_def)
  finally show ?thesis
    using merged by simp
qed

theorem merge_sequences_length_witness:
  "MergeSequences \<lparr>EdgeStart = (\<lambda>e::nat. e), EdgeEnd = (\<lambda>e. e + 1),
       EdgeNucls = (\<lambda>e. if e = 0 then ''ACGTA'' else ''GTACC''), graph_k = 3\<rparr> [0, 1]
     = Inr ''ACGTACC''
   \<and> length ''ACGTACC''
     = graph_length \<lparr>EdgeStart = (\<lambda>e::nat. e), EdgeEnd = (\<lambda>e. e + 1),
         EdgeNucls = (\<lambda>e. if e = 0 then ''ACGTA'' else ''GTACC''), graph_k = 3\<rparr> 0
       + graph_length \<lparr>EdgeStart = (\<lambda>e::nat. e), EdgeEnd = (\<lambda>e. e + 1),
         EdgeNucls = (\<lambda>e. if e = 0 then ''ACGTA'' else ''GTACC''), graph_k = 3\<rparr> 1
       + 3"
  using merge_sequences_length [of "[0, 1]" "\<lparr>EdgeStart = (\<lambda>e::nat. e), EdgeEnd = (\<lambda>e. e + 1),
       EdgeNucls = (\<lambda>e. if e = 0 then ''ACGTA'' else ''GTACC''), graph_k = 3\<rparr>"]
  by (simp add: graph_length_def edge_length_def)


section \<open>Properties of the neighbourhood extraction and of the driver\<close>

lemma unat_ucast_32_64: "unat (ucast (m :: 32 word) :: 64 word) = unat m"
proof -
  have "unat m < 2 ^ 32"
    using unsigned_less [of m] by simp
  then have "unat m < 2 ^ 64"
    by simp
  then show ?thesis
    by (simp add: unsigned_ucast_eq take_bit_nat_eq_self)
qed

lemma halved_below:
  "((w :: 64 word) div 2 < ucast (m :: 32 word)) = (unat w div 2 < unat m)"
  by (simp add: word_less_nat_alt unat_div unat_ucast_32_64)

lemma halved_above:
  "((w :: 64 word) div 2 > ucast (m :: 32 word)) = (unat w div 2 > unat m)"
  by (simp add: word_less_nat_alt unat_div unat_ucast_32_64)

lemma unat_ucast_64_32: "unat (ucast (w :: 64 word) :: 32 word) = unat w mod 2 ^ 32"
  by (simp add: unsigned_ucast_eq take_bit_eq_mod)

lemma unat_scale:
  "unat (ucast ((ucast (x :: 32 word) :: 64 word) * y) :: 32 word) = (unat x * unat y) mod 2 ^ 32"
proof -
  have "(2::nat) ^ 32 dvd 2 ^ 64"
    by (simp add: le_imp_power_dvd)
  then have drop_outer: "(unat x * unat y) mod 2 ^ 64 mod 2 ^ 32 = (unat x * unat y) mod 2 ^ 32"
    by (rule mod_mod_cancel)
  have "unat ((ucast x :: 64 word) * y) = (unat x * unat y) mod 2 ^ 64"
    using unat_word_ariths(2) [of "ucast x :: 64 word" y] by (simp only: unat_ucast_32_64) simp
  then have "unat (ucast ((ucast x :: 64 word) * y) :: 32 word)
               = (unat x * unat y) mod 2 ^ 64 mod 2 ^ 32"
    by (simp only: unat_ucast_64_32)
  then show ?thesis
    by (simp only: drop_outer)
qed

lemma unat_scale_overhang:
  "unat (scale_overhang aas x) = (unat x * (if aas then 6 else 2)) mod 2 ^ 32"
  unfolding scale_overhang_def mult_def
  by (cases aas) (simp_all only: unat_scale if_True if_False, simp_all)

lemma scale_overhang_mult:
  "scale_overhang aas x = x * (if aas then 6 else 2)"
  by (simp add: word_unat_eq_iff unat_scale_overhang unat_word_ariths)


text \<open>
  Claim C9 (neighbourhood extraction). Both overhangs are multiplied by 6 for an
  amino-acid model and by 2 for a nucleotide model (a multiplication of \<open>unsigned\<close>
  values, so modulo \<open>2 ^ 32\<close>) to give the two budgets. The forward traversal runs,
  from the end vertex of the edge and with the forward budget, only when that budget
  is positive; the backward traversal runs, from the start vertex and with the backward
  budget, only when that budget is positive; a zero budget runs no traversal. The
  vertex set is the union of what the traversals that ran have reached with the start
  and the end vertex of the edge, so it always holds both.
\<close>
theorem neighbourhood_extraction:
  "scale_overhang hmm_in_aas overhang = overhang * (if hmm_in_aas then 6 else 2)
   \<and> extract_neighbourhood g fdijkstra bdijkstra hmm_in_aas e (backward, forward) =
      (insert (EdgeStart g e) (insert (EdgeEnd g e)
         ((if 0 < scale_overhang hmm_in_aas forward
           then set (fdijkstra (scale_overhang hmm_in_aas forward) (EdgeEnd g e)) else {})
          \<union> (if 0 < scale_overhang hmm_in_aas backward
           then set (bdijkstra (scale_overhang hmm_in_aas backward) (EdgeStart g e)) else {}))),
       (if 0 < scale_overhang hmm_in_aas forward
        then [ForwardRun (scale_overhang hmm_in_aas forward) (EdgeEnd g e)] else [])
       @ (if 0 < scale_overhang hmm_in_aas backward
        then [BackwardRun (scale_overhang hmm_in_aas backward) (EdgeStart g e)] else []))
   \<and> EdgeStart g e
        \<in> fst (extract_neighbourhood g fdijkstra bdijkstra hmm_in_aas e (backward, forward))
   \<and> EdgeEnd g e
        \<in> fst (extract_neighbourhood g fdijkstra bdijkstra hmm_in_aas e (backward, forward))"
proof (intro conjI)
  show "scale_overhang hmm_in_aas overhang = overhang * (if hmm_in_aas then 6 else 2)"
    by (rule scale_overhang_mult)
  show "extract_neighbourhood g fdijkstra bdijkstra hmm_in_aas e (backward, forward) =
      (insert (EdgeStart g e) (insert (EdgeEnd g e)
         ((if 0 < scale_overhang hmm_in_aas forward
           then set (fdijkstra (scale_overhang hmm_in_aas forward) (EdgeEnd g e)) else {})
          \<union> (if 0 < scale_overhang hmm_in_aas backward
           then set (bdijkstra (scale_overhang hmm_in_aas backward) (EdgeStart g e)) else {}))),
       (if 0 < scale_overhang hmm_in_aas forward
        then [ForwardRun (scale_overhang hmm_in_aas forward) (EdgeEnd g e)] else [])
       @ (if 0 < scale_overhang hmm_in_aas backward
        then [BackwardRun (scale_overhang hmm_in_aas backward) (EdgeStart g e)] else []))"
    by (simp add: extract_neighbourhood_def Let_def)
  show "EdgeStart g e
        \<in> fst (extract_neighbourhood g fdijkstra bdijkstra hmm_in_aas e (backward, forward))"
    by (simp add: extract_neighbourhood_def Let_def split: prod.splits)
  show "EdgeEnd g e
        \<in> fst (extract_neighbourhood g fdijkstra bdijkstra hmm_in_aas e (backward, forward))"
    by (simp add: extract_neighbourhood_def Let_def split: prod.splits)
qed

theorem neighbourhood_extraction_witness:
  "extract_neighbourhood
      \<lparr>EdgeStart = (\<lambda>e::nat. 10 * e), EdgeEnd = (\<lambda>e. 10 * e + 1), EdgeNucls = (\<lambda>e. ''ACGT''),
       graph_k = 3\<rparr>
      (\<lambda>bound v. [v, v + 1]) (\<lambda>bound v. [v, v - 1]) True 7 (0, 5)
     = ({70, 71, 72 :: nat}, [ForwardRun 30 71])
   \<and> scale_overhang False 5 = 10"
  using neighbourhood_extraction [of True 5
      "\<lparr>EdgeStart = (\<lambda>e::nat. 10 * e), EdgeEnd = (\<lambda>e. 10 * e + 1), EdgeNucls = (\<lambda>e. ''ACGT''),
        graph_k = 3\<rparr>"
      "\<lambda>bound v. [v, v + 1]" "\<lambda>bound v. [v, v - 1]" 7 0 5]
    neighbourhood_extraction [of False 5
      "\<lparr>EdgeStart = (\<lambda>e::nat. 10 * e), EdgeEnd = (\<lambda>e. 10 * e + 1), EdgeNucls = (\<lambda>e. ''ACGT''),
        graph_k = 3\<rparr>"
      "\<lambda>bound v. [v, v + 1]" "\<lambda>bound v. [v, v - 1]" 7 0 5]
  by (auto simp: scale_overhang_def mult_def)

text \<open>
  Claim C5 (undersized component). When the halved edge count of a component is below
  \<open>min_size\<close>, the driver adds exactly one result to \<open>results\<close>: rank 0, the path made
  of the leader edge alone, the empty string. Besides that it writes the log line; the
  aligner (\<open>top_paths\<close>) has no part in the outcome and no search is recorded.
\<close>
theorem undersized_component_whole_edge:
  assumes "unat (e_size vs) div 2 < unat (min_size c)"
  shows "process_component c top_paths is_empty edge e_size hmm_in_aas st (e, vs)
     = Inr (st\<lparr>results := results st @ [\<lparr>leader = e, priority = 0, seq = [], path = [e]\<rparr>],
              events := events st @ [InfoTooSmall e]\<rparr>)"
  using assms by (simp add: process_component_def halved_below)

theorem undersized_component_whole_edge_witness:
  "process_component \<lparr>cfg_top = 10, min_size = 2, max_size = 1000, draw = False\<rparr>
      (\<lambda>aas vs top. [([Some 4, Some 5], ''ACGT'')]) (\<lambda>c. c = None) the (\<lambda>vs. 2) False
      \<lparr>results = [], events = []\<rparr> (7::nat, {1, 2 :: nat})
     = Inr \<lparr>results = [\<lparr>leader = 7, priority = 0, seq = [], path = [7]\<rparr>],
            events = [InfoTooSmall 7]\<rparr>"
  using undersized_component_whole_edge [of "\<lambda>vs. 2" "{1, 2 :: nat}"
      "\<lparr>cfg_top = 10, min_size = 2, max_size = 1000, draw = False\<rparr>"
      "\<lambda>aas vs top. [([Some 4, Some 5], ''ACGT'')]" "\<lambda>c. c = None" the False
      "\<lparr>results = [], events = []\<rparr>" "7::nat"]
  by simp

text \<open>
  Claim C6 as stated fails where the thresholds cross: with \<open>min_size = 10\<close> and
  \<open>max_size = 1\<close>, a component of 10 edges has the halved count 5, above \<open>max_size\<close>,
  and the driver emits the whole-edge result, since the \<open>min_size\<close> check comes first.
\<close>
theorem oversized_component_counterexample:
  "unat (max_size \<lparr>cfg_top = 10, min_size = 10, max_size = 1, draw = False\<rparr>)
       < unat (10 :: 64 word) div 2
   \<and> process_component \<lparr>cfg_top = 10, min_size = 10, max_size = 1, draw = False\<rparr>
      (\<lambda>aas vs top. [([Some 4, Some 5], ''ACGT'')]) (\<lambda>c. c = None) the (\<lambda>vs. 10) False
      \<lparr>results = [], events = []\<rparr> (7::nat, {1, 2 :: nat})
     = Inr \<lparr>results = [\<lparr>leader = 7, priority = 0, seq = [], path = [7]\<rparr>],
            events = [InfoTooSmall 7]\<rparr>"
  by (simp add: process_component_def)

text \<open>
  Claim C6, amended (oversized component). When the halved edge count of a component
  exceeds \<open>max_size\<close> and is not below \<open>min_size\<close>, the driver emits no result for it,
  logs the warning and goes on; the aligner is not invoked and no search is recorded.
  When the count is also below \<open>min_size\<close> the \<open>min_size\<close> check decides, as in claim
  C5; the aligner is not invoked then either.
\<close>
theorem oversized_component_skipped:
  assumes "unat (max_size c) < unat (e_size vs) div 2"
  shows "process_component c top_paths is_empty edge e_size hmm_in_aas st (e, vs)
     = (if unat (e_size vs) div 2 < unat (min_size c)
        then Inr (st\<lparr>results := results st @ [\<lparr>leader = e, priority = 0, seq = [], path = [e]\<rparr>],
                    events := events st @ [InfoTooSmall e]\<rparr>)
        else Inr (st\<lparr>events := events st @ [WarnTooLarge e]\<rparr>))"
  using assms by (simp add: process_component_def halved_below halved_above)

theorem oversized_component_skipped_witness:
  "process_component \<lparr>cfg_top = 10, min_size = 2, max_size = 1000, draw = False\<rparr>
      (\<lambda>aas vs top. [([Some 4, Some 5], ''ACGT'')]) (\<lambda>c. c = None) the (\<lambda>vs. 2002) False
      \<lparr>results = [], events = []\<rparr> (7::nat, {1, 2 :: nat})
     = Inr \<lparr>results = [], events = [WarnTooLarge 7]\<rparr>"
  using oversized_component_skipped [of
      "\<lparr>cfg_top = 10, min_size = 2, max_size = 1000, draw = False\<rparr>" "\<lambda>vs. 2002" "{1, 2 :: nat}"
      "\<lambda>aas vs top. [([Some 4, Some 5], ''ACGT'')]" "\<lambda>c. c = None" the False
      "\<lparr>results = [], events = []\<rparr>" "7::nat"]
  by simp

text \<open>Between the two thresholds the search runs and its paths are materialized.\<close>

lemma search_runs_example:
  "process_component \<lparr>cfg_top = 10, min_size = 2, max_size = 1000, draw = False\<rparr>
      (\<lambda>aas vs top. [([Some 4, Some 5], ''ACGT''), ([None, Some 4], ''AC'')]) (\<lambda>c. c = None) the (\<lambda>vs. 10) False
      \<lparr>results = [], events = []\<rparr> (7::nat, {1, 2 :: nat})
     = Inr \<lparr>results = [\<lparr>leader = 7, priority = 0, seq = ''ACGT'', path = [4, 5]\<rparr>,
        \<lparr>leader = 7, priority = 1, seq = ''AC'', path = [4]\<rparr>], events = [RunSearch 7]\<rparr>"
  by (simp add: process_component_def to_path_def skip_empty.simps to_path_loop.simps)


section \<open>Properties of the component merger\<close>

lemma join_inner_grows: "vs \<subseteq> fst (join_inner g vs rest)"
proof (induction rest arbitrary: vs)
  case Nil
  show ?case by simp
next
  case (Cons to_check rest)
  have "vs \<subseteq> fst (join_inner g (vs \<union> snd to_check) rest)"
    using Cons.IH [of "vs \<union> snd to_check"] by blast
  moreover have "vs \<subseteq> fst (join_inner g vs rest)"
    by (rule Cons.IH)
  ultimately show ?case
    by (auto simp: Let_def split: prod.splits)
qed

lemma join_inner_union:
  "fst (join_inner g vs rest) \<union> \<Union> (snd ` set (snd (join_inner g vs rest)))
     = vs \<union> \<Union> (snd ` set rest)"
proof (induction rest arbitrary: vs)
  case Nil
  show ?case by simp
next
  case (Cons to_check rest)
  show ?case
  proof (cases "EdgeStart g (fst to_check) \<in> vs \<or> EdgeEnd g (fst to_check) \<in> vs")
    case True
    then have "join_inner g vs (to_check # rest) = join_inner g (vs \<union> snd to_check) rest"
      by (simp add: Let_def)
    then show ?thesis
      using Cons.IH [of "vs \<union> snd to_check"] by (simp add: Un_assoc)
  next
    case False
    then have "join_inner g vs (to_check # rest)
        = (fst (join_inner g vs rest), to_check # snd (join_inner g vs rest))"
      by (simp add: Let_def split: prod.splits)
    then show ?thesis
      using Cons.IH [of vs] by auto
  qed
qed

lemma join_inner_subseq: "subseq (snd (join_inner g vs rest)) rest"
proof (induction rest arbitrary: vs)
  case Nil
  show ?case by simp
next
  case (Cons to_check rest)
  have "subseq (snd (join_inner g (vs \<union> snd to_check) rest)) (to_check # rest)"
    using Cons.IH [of "vs \<union> snd to_check"] by (rule list_emb_Cons)
  moreover have "subseq (to_check # snd (join_inner g vs rest)) (to_check # rest)"
    using Cons.IH [of vs] by simp
  ultimately show ?case
    by (auto simp: Let_def split: prod.splits)
qed

lemma join_inner_absorbed:
  "entry \<in> set rest
    \<Longrightarrow> entry \<in> set (snd (join_inner g vs rest)) \<or> snd entry \<subseteq> fst (join_inner g vs rest)"
proof (induction rest arbitrary: vs)
  case Nil
  then show ?case by simp
next
  case (Cons to_check rest)
  show ?case
  proof (cases "EdgeStart g (fst to_check) \<in> vs \<or> EdgeEnd g (fst to_check) \<in> vs")
    case True
    then have step: "join_inner g vs (to_check # rest) = join_inner g (vs \<union> snd to_check) rest"
      by (simp add: Let_def)
    show ?thesis
    proof (cases "entry = to_check")
      case True
      then have "snd entry \<subseteq> fst (join_inner g (vs \<union> snd to_check) rest)"
        using join_inner_grows [of "vs \<union> snd to_check" g rest] by blast
      then show ?thesis using step by simp
    next
      case False
      then have "entry \<in> set rest" using Cons.prems by simp
      then show ?thesis
        using Cons.IH [of "vs \<union> snd to_check"] step by simp
    qed
  next
    case False
    then have step: "join_inner g vs (to_check # rest)
        = (fst (join_inner g vs rest), to_check # snd (join_inner g vs rest))"
      by (simp add: Let_def split: prod.splits)
    show ?thesis
    proof (cases "entry = to_check")
      case True
      then show ?thesis using step by simp
    next
      case False
      then have "entry \<in> set rest" using Cons.prems by simp
      then show ?thesis
        using Cons.IH [of vs] step by auto
    qed
  qed
qed

lemma join_inner_kept_outside:
  "entry \<in> set (snd (join_inner g vs rest))
    \<Longrightarrow> EdgeStart g (fst entry) \<notin> vs \<and> EdgeEnd g (fst entry) \<notin> vs"
proof (induction rest arbitrary: vs)
  case Nil
  then show ?case by simp
next
  case (Cons to_check rest)
  show ?case
  proof (cases "EdgeStart g (fst to_check) \<in> vs \<or> EdgeEnd g (fst to_check) \<in> vs")
    case True
    then have "join_inner g vs (to_check # rest) = join_inner g (vs \<union> snd to_check) rest"
      by (simp add: Let_def)
    then have "EdgeStart g (fst entry) \<notin> vs \<union> snd to_check
        \<and> EdgeEnd g (fst entry) \<notin> vs \<union> snd to_check"
      using Cons.IH [of "vs \<union> snd to_check"] Cons.prems by simp
    then show ?thesis by simp
  next
    case False
    then have "join_inner g vs (to_check # rest)
        = (fst (join_inner g vs rest), to_check # snd (join_inner g vs rest))"
      by (simp add: Let_def split: prod.splits)
    then have "entry = to_check \<or> entry \<in> set (snd (join_inner g vs rest))"
      using Cons.prems by simp
    then show ?thesis
      using False Cons.IH [of vs] by blast
  qed
qed

lemma join_components_Cons:
  "join_components g (it # rest)
     = (fst it, fst (join_inner g (snd it) rest))
         # join_components g (snd (join_inner g (snd it) rest))"
  by (simp split: prod.splits)

lemma join_components_union:
  "\<Union> (snd ` set (join_components g m)) = \<Union> (snd ` set m)"
proof (induction g m rule: join_components.induct)
  case (1 g)
  show ?case by simp
next
  case (2 g it rest)
  have "\<Union> (snd ` set (join_components g (snd (join_inner g (snd it) rest))))
      = \<Union> (snd ` set (snd (join_inner g (snd it) rest)))"
    using "2.IH" [OF prod.collapse] by simp
  then show ?case
    using join_inner_union [of g "snd it" rest] by (simp add: join_components_Cons del: join_components.simps)
qed

lemma join_components_subseq:
  "subseq (map fst (join_components g m)) (map fst m)"
proof (induction g m rule: join_components.induct)
  case (1 g)
  show ?case by simp
next
  case (2 g it rest)
  have "subseq (map fst (join_components g (snd (join_inner g (snd it) rest))))
      (map fst (snd (join_inner g (snd it) rest)))"
    using "2.IH" [OF prod.collapse] by simp
  moreover have "subseq (map fst (snd (join_inner g (snd it) rest))) (map fst rest)"
    using join_inner_subseq [of g "snd it" rest] by (rule subseq_map)
  ultimately have "subseq (map fst (join_components g (snd (join_inner g (snd it) rest))))
      (map fst rest)"
    by (rule subseq_order.order_trans)
  then show ?case
    by (simp add: join_components_Cons del: join_components.simps)
qed

lemma join_components_covered:
  "entry \<in> set m \<Longrightarrow> \<exists>merged \<in> set (join_components g m). snd entry \<subseteq> snd merged"
proof (induction g m rule: join_components.induct)
  case (1 g)
  then show ?case by simp
next
  case (2 g it rest)
  let ?kept = "snd (join_inner g (snd it) rest)"
  let ?vs' = "fst (join_inner g (snd it) rest)"
  have IH: "entry \<in> set ?kept
      \<Longrightarrow> \<exists>merged \<in> set (join_components g ?kept). snd entry \<subseteq> snd merged"
    using "2.IH" [OF prod.collapse] by simp
  consider "entry = it" | "entry \<in> set ?kept" | "entry \<in> set rest" "snd entry \<subseteq> ?vs'"
    using "2.prems" join_inner_absorbed [of entry rest g "snd it"] by auto
  then show ?case
  proof cases
    case 1
    then have "snd entry \<subseteq> ?vs'"
      using join_inner_grows [of "snd it" g rest] by simp
    then show ?thesis by (simp add: join_components_Cons del: join_components.simps)
  next
    case 2
    then show ?thesis using IH by (auto simp: join_components_Cons simp del: join_components.simps)
  next
    case 3
    then show ?thesis by (simp add: join_components_Cons del: join_components.simps)
  qed
qed

lemma join_components_head:
  assumes "(b, vb) \<in> set rest" and "EdgeStart g b \<in> va \<or> EdgeEnd g b \<in> va"
  shows "\<exists>va' m'. join_components g ((a, va) # rest) = (a, va') # m'
           \<and> va \<union> vb \<subseteq> va' \<and> b \<notin> fst ` set m'"
proof -
  let ?kept = "snd (join_inner g va rest)"
  let ?va' = "fst (join_inner g va rest)"
  have not_kept: "\<And>entry. entry \<in> set ?kept \<Longrightarrow> fst entry \<noteq> b"
    using join_inner_kept_outside [of _ g va rest] assms(2) by blast
  then have "(b, vb) \<notin> set ?kept"
    by force
  then have "vb \<subseteq> ?va'"
    using join_inner_absorbed [of "(b, vb)" rest g va] assms(1) by simp
  moreover have "va \<subseteq> ?va'"
    by (rule join_inner_grows)
  moreover have "b \<notin> fst ` set (join_components g ?kept)"
  proof
    assume "b \<in> fst ` set (join_components g ?kept)"
    then have "b \<in> set (map fst (join_components g ?kept))"
      by simp
    with join_components_subseq [of g ?kept]
    obtain y where "y \<in> set (map fst ?kept)" and "b = y"
      by (rule list_emb_set)
    then have "b \<in> set (map fst ?kept)"
      by simp
    then show False
      using not_kept by auto
  qed
  ultimately show ?thesis
    by (simp add: join_components_Cons del: join_components.simps)
qed


lemma join_inner_absorbs:
  "(absorb_step g)\<^sup>*\<^sup>* (pre @ (a, vs) # mid @ rest)
     (pre @ (a, fst (join_inner g vs rest)) # mid @ snd (join_inner g vs rest))"
proof (induction rest arbitrary: vs mid)
  case Nil
  show ?case by simp
next
  case (Cons to_check rest)
  obtain b vb where to_check: "to_check = (b, vb)"
    by (cases to_check)
  show ?case
  proof (cases "EdgeStart g b \<in> vs \<or> EdgeEnd g b \<in> vs")
    case True
    then have "absorb_step g (pre @ (a, vs) # mid @ (b, vb) # rest)
        (pre @ (a, vs \<union> vb) # mid @ rest)"
      by (rule absorb)
    moreover have "(absorb_step g)\<^sup>*\<^sup>* (pre @ (a, vs \<union> vb) # mid @ rest)
        (pre @ (a, fst (join_inner g (vs \<union> vb) rest)) # mid
           @ snd (join_inner g (vs \<union> vb) rest))"
      by (rule Cons.IH)
    ultimately have "(absorb_step g)\<^sup>*\<^sup>* (pre @ (a, vs) # mid @ (b, vb) # rest)
        (pre @ (a, fst (join_inner g (vs \<union> vb) rest)) # mid
           @ snd (join_inner g (vs \<union> vb) rest))"
      by (rule converse_rtranclp_into_rtranclp)
    then show ?thesis
      using True to_check by (simp add: Let_def)
  next
    case False
    have "(absorb_step g)\<^sup>*\<^sup>* (pre @ (a, vs) # (mid @ [to_check]) @ rest)
        (pre @ (a, fst (join_inner g vs rest)) # (mid @ [to_check])
           @ snd (join_inner g vs rest))"
      by (rule Cons.IH)
    then show ?thesis
      using False to_check by (auto simp: Let_def split: prod.splits)
  qed
qed

lemma join_components_absorbs:
  "(absorb_step g)\<^sup>*\<^sup>* (pre @ m) (pre @ join_components g m)"
proof (induction g m arbitrary: pre rule: join_components.induct)
  case (1 g)
  show ?case by simp
next
  case (2 g it rest)
  let ?vs' = "fst (join_inner g (snd it) rest)"
  let ?kept = "snd (join_inner g (snd it) rest)"
  have "(absorb_step g)\<^sup>*\<^sup>* (pre @ (fst it, snd it) # [] @ rest)
      (pre @ (fst it, ?vs') # [] @ ?kept)"
    by (rule join_inner_absorbs)
  then have inner: "(absorb_step g)\<^sup>*\<^sup>* (pre @ it # rest) (pre @ (fst it, ?vs') # ?kept)"
    by simp
  have "(absorb_step g)\<^sup>*\<^sup>* ((pre @ [(fst it, ?vs')]) @ ?kept)
      ((pre @ [(fst it, ?vs')]) @ join_components g ?kept)"
    using "2.IH" [OF prod.collapse] .
  then have outer: "(absorb_step g)\<^sup>*\<^sup>* (pre @ (fst it, ?vs') # ?kept)
      (pre @ (fst it, ?vs') # join_components g ?kept)"
    by simp
  show ?case
    using inner outer
    by (simp add: join_components_Cons del: join_components.simps)
qed


lemma join_inner_kept_set: "set (snd (join_inner g vs rest)) \<subseteq> set rest"
  using join_inner_subseq [of g vs rest] by (auto elim: list_emb_set)

lemma join_inner_distinct:
  "distinct (map fst rest) \<Longrightarrow> distinct (map fst (snd (join_inner g vs rest)))"
proof (induction rest arbitrary: vs)
  case Nil
  show ?case by simp
next
  case (Cons to_check rest)
  have rest: "distinct (map fst rest)" and fresh: "fst to_check \<notin> fst ` set rest"
    using Cons.prems by simp_all
  have absorbed: "distinct (map fst (snd (join_inner g (vs \<union> snd to_check) rest)))"
    using rest by (rule Cons.IH)
  have kept: "distinct (map fst (snd (join_inner g vs rest)))"
    using rest by (rule Cons.IH)
  have "fst to_check \<notin> fst ` set (snd (join_inner g vs rest))"
    using fresh join_inner_kept_set [of g vs rest] by blast
  then show ?case
    using absorbed kept by (auto simp: Let_def split: prod.splits)
qed

lemma same_key_same_entry:
  "distinct (map fst m) \<Longrightarrow> (b, vb) \<in> set m \<Longrightarrow> (b, vb') \<in> set m \<Longrightarrow> vb' = vb"
  by (meson eq_key_imp_eq_value)

lemma join_inner_before:
  assumes "distinct (map fst rest)" and "rest = pre @ (a, va) # mid" and "(b, vb) \<in> set mid"
    and "EdgeStart g b \<in> va \<or> EdgeEnd g b \<in> va"
  shows "b \<notin> fst ` set (snd (join_inner g vs rest))
     \<or> (\<exists>pre' mid'. snd (join_inner g vs rest) = pre' @ (a, va) # mid' \<and> (b, vb) \<in> set mid')"
  using assms(1,2)
proof (induction pre arbitrary: vs rest)
  case Nil
  then have rest: "rest = (a, va) # mid" and mid: "distinct (map fst mid)"
    and a_fresh: "a \<notin> fst ` set mid"
    by simp_all
  have b_not_a: "b \<noteq> a"
    using a_fresh assms(3) by force
  show ?case
  proof (cases "EdgeStart g a \<in> vs \<or> EdgeEnd g a \<in> vs")
    case True
    then have step: "join_inner g vs rest = join_inner g (vs \<union> va) mid"
      using rest by (simp add: Let_def)
    have "\<And>entry. entry \<in> set (snd (join_inner g (vs \<union> va) mid)) \<Longrightarrow> fst entry \<noteq> b"
      using join_inner_kept_outside [of _ g "vs \<union> va" mid] assms(4) by blast
    then have "b \<notin> fst ` set (snd (join_inner g (vs \<union> va) mid))"
      by blast
    then show ?thesis
      using step by simp
  next
    case False
    then have step: "snd (join_inner g vs rest) = (a, va) # snd (join_inner g vs mid)"
      using rest by (simp add: Let_def split: prod.splits)
    show ?thesis
    proof (cases "(b, vb) \<in> set (snd (join_inner g vs mid))")
      case True
      then have "snd (join_inner g vs rest) = [] @ (a, va) # snd (join_inner g vs mid)
          \<and> (b, vb) \<in> set (snd (join_inner g vs mid))"
        using step by simp
      then show ?thesis by blast
    next
      case gone: False
      have "b \<notin> fst ` set (snd (join_inner g vs mid))"
      proof
        assume "b \<in> fst ` set (snd (join_inner g vs mid))"
        then obtain vb' where kept: "(b, vb') \<in> set (snd (join_inner g vs mid))"
          by force
        then have "(b, vb') \<in> set mid"
          using join_inner_kept_set [of g vs mid] by blast
        then have "vb' = vb"
          using mid assms(3) by (rule same_key_same_entry [rotated 2])
        then show False
          using kept gone by simp
      qed
      then show ?thesis
        using step b_not_a by simp
    qed
  qed
next
  case (Cons p pre)
  let ?rest0 = "pre @ (a, va) # mid"
  have rest: "rest = p # ?rest0" and rest0: "distinct (map fst ?rest0)"
    and p_fresh: "fst p \<notin> fst ` set ?rest0"
    using Cons.prems by auto
  have "(b, vb) \<in> set ?rest0"
    using assms(3) by simp
  then have "b \<in> fst ` set ?rest0"
    by (intro image_eqI [where x = "(b, vb)"]) simp_all
  then have b_not_p: "b \<noteq> fst p"
    using p_fresh by blast
  show ?case
  proof (cases "EdgeStart g (fst p) \<in> vs \<or> EdgeEnd g (fst p) \<in> vs")
    case True
    then have "join_inner g vs rest = join_inner g (vs \<union> snd p) ?rest0"
      using rest by (simp add: Let_def)
    then show ?thesis
      using Cons.IH [OF rest0 refl, of "vs \<union> snd p"] by simp
  next
    case False
    then have step: "snd (join_inner g vs rest) = p # snd (join_inner g vs ?rest0)"
      using rest by (simp add: Let_def split: prod.splits)
    from Cons.IH [OF rest0 refl, of vs] show ?thesis
    proof
      assume "b \<notin> fst ` set (snd (join_inner g vs ?rest0))"
      then show ?thesis
        using step b_not_p by simp
    next
      assume "\<exists>pre' mid'. snd (join_inner g vs ?rest0) = pre' @ (a, va) # mid'
          \<and> (b, vb) \<in> set mid'"
      then obtain pre' mid' where "snd (join_inner g vs ?rest0) = pre' @ (a, va) # mid'"
        and "(b, vb) \<in> set mid'"
        by blast
      then have "snd (join_inner g vs rest) = (p # pre') @ (a, va) # mid'
          \<and> (b, vb) \<in> set mid'"
        using step by simp
      then show ?thesis by blast
    qed
  qed
qed


lemma join_components_keys:
  "set (map fst (join_components g m)) \<subseteq> set (map fst m)"
proof
  fix x assume "x \<in> set (map fst (join_components g m))"
  with join_components_subseq [of g m]
  obtain y where "y \<in> set (map fst m)" and "x = y"
    by (rule list_emb_set)
  then show "x \<in> set (map fst m)"
    by simp
qed

lemma join_components_later_absorbed:
  "distinct (map fst m) \<Longrightarrow> m = pre @ (a, va) # mid \<Longrightarrow> (b, vb) \<in> set mid
    \<Longrightarrow> EdgeStart g b \<in> va \<or> EdgeEnd g b \<in> va
    \<Longrightarrow> b \<notin> fst ` set (join_components g m)"
proof (induction g m arbitrary: pre mid rule: join_components.induct)
  case (1 g)
  then show ?case by simp
next
  case (2 g it rest)
  let ?kept = "snd (join_inner g (snd it) rest)"
  note later = \<open>(b, vb) \<in> set mid\<close>
  note test = \<open>EdgeStart g b \<in> va \<or> EdgeEnd g b \<in> va\<close>
  have rest: "distinct (map fst rest)" and it_fresh: "fst it \<notin> fst ` set rest"
    using "2.prems"(1) by simp_all
  have b_in: "(b, vb) \<in> set rest"
    using "2.prems"(2) later by (cases pre) auto
  then have "b \<in> fst ` set rest"
    by (intro image_eqI [where x = "(b, vb)"]) simp_all
  then have b_not_it: "b \<noteq> fst it"
    using it_fresh by blast
  have gone: "b \<notin> fst ` set ?kept \<Longrightarrow> b \<notin> fst ` set (join_components g ?kept)"
    using join_components_keys [of g ?kept] by auto
  have "b \<notin> fst ` set (join_components g ?kept)"
  proof (cases pre)
    case Nil
    then have it: "it = (a, va)"
      using "2.prems"(2) by simp
    have "\<And>entry. entry \<in> set ?kept \<Longrightarrow> fst entry \<noteq> b"
      using join_inner_kept_outside [of _ g "snd it" rest] test it by auto
    then have "b \<notin> fst ` set ?kept"
      by blast
    then show ?thesis
      by (rule gone)
  next
    case (Cons p pre0)
    then have "rest = pre0 @ (a, va) # mid"
      using "2.prems"(2) by simp
    from join_inner_before [OF rest this later test, of "snd it"] show ?thesis
    proof
      assume "b \<notin> fst ` set ?kept"
      then show ?thesis by (rule gone)
    next
      assume "\<exists>pre' mid'. ?kept = pre' @ (a, va) # mid' \<and> (b, vb) \<in> set mid'"
      then obtain pre' mid' where kept: "?kept = pre' @ (a, va) # mid'"
        and later': "(b, vb) \<in> set mid'"
        by blast
      have "distinct (map fst ?kept)"
        using rest by (rule join_inner_distinct)
      then show ?thesis
        using kept later' test by (rule "2.IH" [OF prod.collapse])
    qed
  qed
  then show ?case
    using b_not_it by (simp add: join_components_Cons del: join_components.simps)
qed

lemma join_inner_not_absorbed:
  assumes "distinct (map fst rest)" and "(b, vb) \<in> set rest"
    and "EdgeStart g b \<notin> vs \<and> EdgeEnd g b \<notin> vs"
    and "\<forall>entry \<in> set rest. fst entry \<noteq> a \<longrightarrow> fst entry \<noteq> b
           \<longrightarrow> EdgeStart g b \<notin> snd entry \<and> EdgeEnd g b \<notin> snd entry"
    and "\<forall>entry \<in> set rest. fst entry = a \<longrightarrow> entry \<in> set (snd (join_inner g vs rest))"
  shows "(b, vb) \<in> set (snd (join_inner g vs rest))"
  using assms
proof (induction rest arbitrary: vs)
  case Nil
  then show ?case by simp
next
  case (Cons x rest)
  have rest: "distinct (map fst rest)" and x_fresh: "fst x \<notin> fst ` set rest"
    using Cons.prems(1) by simp_all
  have others: "\<forall>entry \<in> set rest. fst entry \<noteq> a \<longrightarrow> fst entry \<noteq> b
           \<longrightarrow> EdgeStart g b \<notin> snd entry \<and> EdgeEnd g b \<notin> snd entry"
    using Cons.prems(4) by simp
  have not_x: "\<And>entry. entry \<in> set rest \<Longrightarrow> entry \<noteq> x"
    using x_fresh by blast
  show ?case
  proof (cases "EdgeStart g (fst x) \<in> vs \<or> EdgeEnd g (fst x) \<in> vs")
    case True
    then have step: "join_inner g vs (x # rest) = join_inner g (vs \<union> snd x) rest"
      by (simp add: Let_def)
    have x_not_a: "fst x \<noteq> a"
    proof
      assume "fst x = a"
      then have "x \<in> set (snd (join_inner g (vs \<union> snd x) rest))"
        using Cons.prems(5) step by simp
      then have "x \<in> set rest"
        using join_inner_kept_set [of g "vs \<union> snd x" rest] by blast
      then show False
        using not_x by blast
    qed
    have x_not_b: "fst x \<noteq> b"
      using True Cons.prems(3) by auto
    then have b_in: "(b, vb) \<in> set rest"
      using Cons.prems(2) by auto
    have "EdgeStart g b \<notin> snd x \<and> EdgeEnd g b \<notin> snd x"
      using Cons.prems(4) x_not_a x_not_b by simp
    then have outside: "EdgeStart g b \<notin> vs \<union> snd x \<and> EdgeEnd g b \<notin> vs \<union> snd x"
      using Cons.prems(3) by simp
    have kept_a: "\<forall>entry \<in> set rest. fst entry = a
        \<longrightarrow> entry \<in> set (snd (join_inner g (vs \<union> snd x) rest))"
      using Cons.prems(5) step by simp
    show ?thesis
      using Cons.IH [OF rest b_in outside others kept_a] step by simp
  next
    case False
    then have step: "snd (join_inner g vs (x # rest)) = x # snd (join_inner g vs rest)"
      by (simp add: Let_def split: prod.splits)
    show ?thesis
    proof (cases "x = (b, vb)")
      case True
      then show ?thesis using step by simp
    next
      case other: False
      then have b_in: "(b, vb) \<in> set rest"
        using Cons.prems(2) by simp
      have kept_a: "\<forall>entry \<in> set rest. fst entry = a
          \<longrightarrow> entry \<in> set (snd (join_inner g vs rest))"
        using Cons.prems(5) step not_x by auto
      show ?thesis
        using Cons.IH [OF rest b_in Cons.prems(3) others kept_a] step by simp
    qed
  qed
qed

lemma join_components_together:
  "distinct (map fst m) \<Longrightarrow> m = pre @ (a, va) # mid \<Longrightarrow> (b, vb) \<in> set mid
    \<Longrightarrow> EdgeStart g b \<in> va \<or> EdgeEnd g b \<in> va
    \<Longrightarrow> \<forall>entry \<in> set m. fst entry \<noteq> a \<longrightarrow> fst entry \<noteq> b
           \<longrightarrow> EdgeStart g b \<notin> snd entry \<and> EdgeEnd g b \<notin> snd entry
    \<Longrightarrow> \<exists>merged \<in> set (join_components g m). va \<union> vb \<subseteq> snd merged"
proof (induction g m arbitrary: pre mid rule: join_components.induct)
  case (1 g)
  then show ?case by simp
next
  case (2 g it rest)
  let ?kept = "snd (join_inner g (snd it) rest)"
  let ?vs' = "fst (join_inner g (snd it) rest)"
  note later = \<open>(b, vb) \<in> set mid\<close>
  note test = \<open>EdgeStart g b \<in> va \<or> EdgeEnd g b \<in> va\<close>
  note others = \<open>\<forall>entry \<in> set (it # rest). fst entry \<noteq> a \<longrightarrow> fst entry \<noteq> b
           \<longrightarrow> EdgeStart g b \<notin> snd entry \<and> EdgeEnd g b \<notin> snd entry\<close>
  have rest: "distinct (map fst rest)" and it_fresh: "fst it \<notin> fst ` set rest"
    using "2.prems"(1) by simp_all
  show ?case
  proof (cases pre)
    case Nil
    then have it: "it = (a, va)" and "rest = mid"
      using "2.prems"(2) by simp_all
    then have "(b, vb) \<in> set rest"
      using later by simp
    then obtain va' m' where run: "join_components g ((a, va) # rest) = (a, va') # m'"
      and union: "va \<union> vb \<subseteq> va'"
      using join_components_head [of b vb rest g va a] test by blast
    have "(a, va') \<in> set (join_components g (it # rest))"
      using run it by (simp del: join_components.simps)
    then show ?thesis
      using union by (intro bexI [where x = "(a, va')"]) simp_all
  next
    case (Cons p pre0)
    then have place: "rest = pre0 @ (a, va) # mid" and "it = p"
      using "2.prems"(2) by simp_all
    have a_in: "(a, va) \<in> set rest" and b_in: "(b, vb) \<in> set rest"
      using place later by simp_all
    have "a \<in> fst ` set rest"
      using a_in by (intro image_eqI [where x = "(a, va)"]) simp_all
    then have it_not_a: "fst it \<noteq> a"
      using it_fresh by blast
    have "b \<in> fst ` set rest"
      using b_in by (intro image_eqI [where x = "(b, vb)"]) simp_all
    then have it_not_b: "fst it \<noteq> b"
      using it_fresh by blast
    have outside: "EdgeStart g b \<notin> snd it \<and> EdgeEnd g b \<notin> snd it"
      using others it_not_a it_not_b by simp
    have others_rest: "\<forall>entry \<in> set rest. fst entry \<noteq> a \<longrightarrow> fst entry \<noteq> b
           \<longrightarrow> EdgeStart g b \<notin> snd entry \<and> EdgeEnd g b \<notin> snd entry"
      using others by simp
    from join_inner_before [OF rest place later test, of "snd it"] show ?thesis
    proof
      assume "\<exists>pre' mid'. ?kept = pre' @ (a, va) # mid' \<and> (b, vb) \<in> set mid'"
      then obtain pre' mid' where kept: "?kept = pre' @ (a, va) # mid'"
        and later': "(b, vb) \<in> set mid'"
        by blast
      have "distinct (map fst ?kept)"
        using rest by (rule join_inner_distinct)
      moreover have "\<forall>entry \<in> set ?kept. fst entry \<noteq> a \<longrightarrow> fst entry \<noteq> b
           \<longrightarrow> EdgeStart g b \<notin> snd entry \<and> EdgeEnd g b \<notin> snd entry"
        using others_rest join_inner_kept_set [of g "snd it" rest] by blast
      ultimately have "\<exists>merged \<in> set (join_components g ?kept). va \<union> vb \<subseteq> snd merged"
        using kept later' test by (intro "2.IH" [OF prod.collapse])
      then show ?thesis
        by (auto simp: join_components_Cons simp del: join_components.simps)
    next
      assume gone: "b \<notin> fst ` set ?kept"
      have b_gone: "(b, vb) \<notin> set ?kept"
      proof
        assume "(b, vb) \<in> set ?kept"
        then have "b \<in> fst ` set ?kept"
          by (intro image_eqI [where x = "(b, vb)"]) simp_all
        then show False using gone by simp
      qed
      have a_gone: "(a, va) \<notin> set ?kept"
      proof
        assume a_kept: "(a, va) \<in> set ?kept"
        have "\<forall>entry \<in> set rest. fst entry = a \<longrightarrow> entry \<in> set ?kept"
        proof (intro ballI impI)
          fix entry assume "entry \<in> set rest" and "fst entry = a"
          then have "(a, snd entry) \<in> set rest"
            by (metis prod.collapse)
          then have "snd entry = va"
            using rest a_in by (rule same_key_same_entry [rotated 2])
          then show "entry \<in> set ?kept"
            using a_kept \<open>fst entry = a\<close> by (metis prod.collapse)
        qed
        then have "(b, vb) \<in> set ?kept"
          using rest b_in outside others_rest by (intro join_inner_not_absorbed)
        then show False using b_gone by simp
      qed
      have "va \<subseteq> ?vs'"
        using join_inner_absorbed [of "(a, va)" rest g "snd it"] a_in a_gone by simp
      moreover have "vb \<subseteq> ?vs'"
        using join_inner_absorbed [of "(b, vb)" rest g "snd it"] b_in b_gone by simp
      ultimately show ?thesis
        by (simp add: join_components_Cons del: join_components.simps)
    qed
  qed
qed

text \<open>
  Claim C1 as stated fails on the code. Edge 0 runs from vertex 0 to vertex 1, edge 1
  from vertex 2 to vertex 3; the two neighbourhoods share vertex 9, and neither holds an
  endpoint of the other's leader. The merger leaves both entries as they are, so two
  surviving entries intersect.
\<close>

theorem join_components_counterexample:
  "join_components
      \<lparr>EdgeStart = (\<lambda>e::nat. 2 * e), EdgeEnd = (\<lambda>e. 2 * e + 1), EdgeNucls = (\<lambda>e. ''ACGT''),
       graph_k = 3\<rparr>
      [(0, {0, 1, 9 :: nat}), (1, {2, 3, 9})]
     = [(0, {0, 1, 9}), (1, {2, 3, 9})]
   \<and> 9 \<in> {0, 1, 9 :: nat} \<inter> {2, 3, 9}
   \<and> \<not> no_intersections (join_components
      \<lparr>EdgeStart = (\<lambda>e::nat. 2 * e), EdgeEnd = (\<lambda>e. 2 * e + 1), EdgeNucls = (\<lambda>e. ''ACGT''),
       graph_k = 3\<rparr>
      [(0, {0, 1, 9 :: nat}), (1, {2, 3, 9})])"
  by (simp add: Let_def)

text \<open>
  Claim C1, amended (the merger joins on leader endpoints, not on shared vertices). For
  every mapping from leader edges to vertex sets (its leaders are distinct):
  \<^item> the surviving mapping comes from the input by absorptions only, each of an entry
    \<open>B\<close> into an entry \<open>A\<close> before it whose vertex set at that moment holds the start or
    the end vertex of the leader of \<open>B\<close>, the vertex set of \<open>A\<close> becoming the union and
    \<open>B\<close> being removed;
  \<^item> the union of all vertex sets is unchanged, the surviving leaders are leaders of the
    input in the input's order, and every vertex set of the input lies within the vertex
    set of a surviving component;
  \<^item> for any two entries \<open>A\<close> and \<open>B\<close>, \<open>A\<close> before \<open>B\<close>, such that the original vertex set
    of \<open>A\<close> holds the start or the end vertex of the leader of \<open>B\<close>, \<open>B\<close> leads no
    surviving component: it has been absorbed;
  \<^item> and when, besides, no vertex set of the input other than those of \<open>A\<close> and \<open>B\<close>
    holds the start or the end vertex of the leader of \<open>B\<close>, \<open>A\<close> and \<open>B\<close> end up in a
    single surviving component, whose vertex set contains the union of the two original
    vertex sets.

  That the surviving vertex sets are disjoint, or that no further absorption is
  possible, is no part of the statement.
\<close>

theorem join_components_by_leader_endpoint:
  "(absorb_step g)\<^sup>*\<^sup>* m (join_components g m)
   \<and> \<Union> (snd ` set (join_components g m)) = \<Union> (snd ` set m)
   \<and> subseq (map fst (join_components g m)) (map fst m)
   \<and> (\<forall>entry \<in> set m. \<exists>merged \<in> set (join_components g m). snd entry \<subseteq> snd merged)
   \<and> (distinct (map fst m) \<and> m = pre @ (a, va) # mid \<and> (b, vb) \<in> set mid
        \<and> (EdgeStart g b \<in> va \<or> EdgeEnd g b \<in> va)
      \<longrightarrow> b \<notin> fst ` set (join_components g m)
        \<and> ((\<forall>entry \<in> set m. fst entry \<noteq> a \<longrightarrow> fst entry \<noteq> b
               \<longrightarrow> EdgeStart g b \<notin> snd entry \<and> EdgeEnd g b \<notin> snd entry)
           \<longrightarrow> (\<exists>merged \<in> set (join_components g m). va \<union> vb \<subseteq> snd merged)))"
proof (intro conjI ballI impI)
  show "(absorb_step g)\<^sup>*\<^sup>* m (join_components g m)"
    using join_components_absorbs [of g "[]" m] by simp
  show "\<Union> (snd ` set (join_components g m)) = \<Union> (snd ` set m)"
    by (rule join_components_union)
  show "subseq (map fst (join_components g m)) (map fst m)"
    by (rule join_components_subseq)
next
  fix entry assume "entry \<in> set m"
  then show "\<exists>merged \<in> set (join_components g m). snd entry \<subseteq> snd merged"
    by (rule join_components_covered)
next
  assume "distinct (map fst m) \<and> m = pre @ (a, va) # mid \<and> (b, vb) \<in> set mid
        \<and> (EdgeStart g b \<in> va \<or> EdgeEnd g b \<in> va)"
  then show "b \<notin> fst ` set (join_components g m)"
    using join_components_later_absorbed [of m pre a va mid b vb g] by blast
next
  assume pair: "distinct (map fst m) \<and> m = pre @ (a, va) # mid \<and> (b, vb) \<in> set mid
        \<and> (EdgeStart g b \<in> va \<or> EdgeEnd g b \<in> va)"
    and others: "\<forall>entry \<in> set m. fst entry \<noteq> a \<longrightarrow> fst entry \<noteq> b
               \<longrightarrow> EdgeStart g b \<notin> snd entry \<and> EdgeEnd g b \<notin> snd entry"
  have "distinct (map fst m)" and "m = pre @ (a, va) # mid" and "(b, vb) \<in> set mid"
    and "EdgeStart g b \<in> va \<or> EdgeEnd g b \<in> va"
    using pair by blast+
  then show "\<exists>merged \<in> set (join_components g m). va \<union> vb \<subseteq> snd merged"
    using others by (rule join_components_together)
qed

theorem join_components_by_leader_endpoint_witness:
  "join_components
      \<lparr>EdgeStart = (\<lambda>e::nat. 2 * e), EdgeEnd = (\<lambda>e. 2 * e + 1), EdgeNucls = (\<lambda>e. ''ACGT''),
       graph_k = 3\<rparr>
      [(4, {8, 9 :: nat}), (0, {0, 1, 2}), (5, {10, 11}), (1, {2, 3, 7})]
     = [(4, {8, 9}), (0, {0, 1, 2, 3, 7}), (5, {10, 11})]
   \<and> (absorb_step
        \<lparr>EdgeStart = (\<lambda>e::nat. 2 * e), EdgeEnd = (\<lambda>e. 2 * e + 1), EdgeNucls = (\<lambda>e. ''ACGT''),
         graph_k = 3\<rparr>)\<^sup>*\<^sup>*
      [(4, {8, 9 :: nat}), (0, {0, 1, 2}), (5, {10, 11}), (1, {2, 3, 7})]
      [(4, {8, 9}), (0, {0, 1, 2, 3, 7}), (5, {10, 11})]
   \<and> 1 \<notin> fst ` set (join_components
      \<lparr>EdgeStart = (\<lambda>e::nat. 2 * e), EdgeEnd = (\<lambda>e. 2 * e + 1), EdgeNucls = (\<lambda>e. ''ACGT''),
       graph_k = 3\<rparr>
      [(4, {8, 9 :: nat}), (0, {0, 1, 2}), (5, {10, 11}), (1, {2, 3, 7})])
   \<and> (\<exists>merged \<in> set (join_components
      \<lparr>EdgeStart = (\<lambda>e::nat. 2 * e), EdgeEnd = (\<lambda>e. 2 * e + 1), EdgeNucls = (\<lambda>e. ''ACGT''),
       graph_k = 3\<rparr>
      [(4, {8, 9 :: nat}), (0, {0, 1, 2}), (5, {10, 11}), (1, {2, 3, 7})]).
        {0, 1, 2} \<union> {2, 3, 7} \<subseteq> snd merged)"
proof -
  let ?g = "\<lparr>EdgeStart = (\<lambda>e::nat. 2 * e), EdgeEnd = (\<lambda>e. 2 * e + 1),
    EdgeNucls = (\<lambda>e::nat. ''ACGT''), graph_k = 3\<rparr>"
  let ?m = "[(4::nat, {8, 9 :: nat}), (0, {0, 1, 2}), (5, {10, 11}), (1, {2, 3, 7})]"
  have run: "join_components ?g ?m = [(4, {8, 9}), (0, {0, 1, 2, 3, 7}), (5, {10, 11})]"
    by (auto simp: Let_def)
  have pair: "distinct (map fst ?m) \<and> ?m = [(4, {8, 9})] @ (0, {0, 1, 2}) # [(5, {10, 11}), (1, {2, 3, 7})]
      \<and> (1, {2, 3, 7}) \<in> set [(5::nat, {10, 11 :: nat}), (1, {2, 3, 7})]
      \<and> (EdgeStart ?g 1 \<in> {0, 1, 2} \<or> EdgeEnd ?g 1 \<in> {0, 1, 2})"
    by simp
  have others: "\<forall>entry \<in> set ?m. fst entry \<noteq> 0 \<longrightarrow> fst entry \<noteq> 1
      \<longrightarrow> EdgeStart ?g 1 \<notin> snd entry \<and> EdgeEnd ?g 1 \<notin> snd entry"
    by simp
  note inst = join_components_by_leader_endpoint [of ?g ?m "[(4, {8, 9})]" 0 "{0, 1, 2}"
      "[(5, {10, 11}), (1, {2, 3, 7})]" 1 "{2, 3, 7}"]
  have steps: "(absorb_step ?g)\<^sup>*\<^sup>* ?m (join_components ?g ?m)"
    using inst by (rule conjunct1)
  have gone: "1 \<notin> fst ` set (join_components ?g ?m)"
    using inst pair by blast
  have together: "\<exists>merged \<in> set (join_components ?g ?m). {0, 1, 2} \<union> {2, 3, 7} \<subseteq> snd merged"
    using inst pair others by blast
  show ?thesis
    using run steps gone together by (simp only: simp_thms)
qed

text \<open>
  A run at a concrete mapping, and a second run on its result: entry 3, passed over
  before the vertex set of entry 0 had grown, is absorbed by the second run.
\<close>

lemma join_components_second_run_example:
  "join_components
      \<lparr>EdgeStart = (\<lambda>e::nat. 2 * e), EdgeEnd = (\<lambda>e. 2 * e + 1), EdgeNucls = (\<lambda>e. ''ACGT''),
       graph_k = 3\<rparr>
      [(0, {0, 1, 4 :: nat}), (3, {6, 7}), (2, {4, 5, 6})]
     = [(0, {0, 1, 4, 5, 6}), (3, {6, 7})]
   \<and> join_components
      \<lparr>EdgeStart = (\<lambda>e::nat. 2 * e), EdgeEnd = (\<lambda>e. 2 * e + 1), EdgeNucls = (\<lambda>e. ''ACGT''),
       graph_k = 3\<rparr>
      [(0, {0, 1, 4, 5, 6 :: nat}), (3, {6, 7})]
     = [(0, {0, 1, 4, 5, 6, 7})]"
  by (auto simp: Let_def)

end
